theory Spec2Isabelle
  imports Main
begin

section \<open>Regular expressions as the harness uses them\<close>

text \<open>
  \<^verbatim>\<open>units.py\<close> leans on Python's \<^verbatim>\<open>re\<close> module: \<^verbatim>\<open>re.match\<close> in \<^verbatim>\<open>check_units\<close> and
  \<^verbatim>\<open>Pattern.sub\<close> in \<^verbatim>\<open>run_filter\<close>. The patterns of the script are written here as syntax
  trees, and matched by a backtracking matcher that lists every way a pattern can match
  at a position, in the order in which Python's engine tries them (greedy repetition
  first, left alternative first). The head of that list is the match Python reports.

  Strings are lists of 8-bit characters; a line as \<^verbatim>\<open>for l in fin\<close> yields it carries
  its newline, if any, as last character.
\<close>

type_synonym caps = "(nat \<times> string) list"

text \<open>
  A matcher state: the groups captured so far (most recent first), whether the position
  is still the beginning of the string, and the text not yet consumed.
\<close>

type_synonym mstate = "caps \<times> bool \<times> string"

datatype re =
    Cls "char \<Rightarrow> bool"
  | Bol
  | Eol
  | Eps
  | Seq re re
  | Alt re re
  | Star re
  | Grp nat re

text \<open>
  Greedy repetition of a matcher \<open>f\<close>: first every way of matching \<open>f\<close> once more (an
  iteration has to consume something) followed by further repetition, last the empty
  repetition.
\<close>

function star :: "(mstate \<Rightarrow> mstate list) \<Rightarrow> mstate \<Rightarrow> mstate list" where
  "star f st =
     concat (map (\<lambda>st'. if length (snd (snd st')) < length (snd (snd st))
                         then star f st' else [])
                 (f st)) @ [st]"
  by pat_completeness auto
termination
  by (relation "measure (\<lambda>(f, st). length (snd (snd st)))") auto

declare star.simps [simp del]

text \<open>
  \<open>Bol\<close> is \<^verbatim>\<open>^\<close> and \<open>Eol\<close> is \<^verbatim>\<open>$\<close>, both without \<^verbatim>\<open>re.MULTILINE\<close>: \<^verbatim>\<open>$\<close> matches at the
  end of the string and just before a newline that ends the string.
\<close>

primrec matches :: "re \<Rightarrow> mstate \<Rightarrow> mstate list" where
  "matches (Cls P) st =
     (case snd (snd st) of
        [] \<Rightarrow> []
      | x # xs \<Rightarrow> if P x then [(fst st, False, xs)] else [])"
| "matches Bol st = (if fst (snd st) then [st] else [])"
| "matches Eol st =
     (if snd (snd st) = [] \<or> snd (snd st) = [CHR 0x0A] then [st] else [])"
| "matches Eps st = [st]"
| "matches (Seq r1 r2) st = concat (map (matches r2) (matches r1 st))"
| "matches (Alt r1 r2) st = matches r1 st @ matches r2 st"
| "matches (Star r) st = star (matches r) st"
| "matches (Grp n r) st =
     map (\<lambda>st'. ((n, take (length (snd (snd st)) - length (snd (snd st'))) (snd (snd st)))
                   # fst st', snd st'))
         (matches r st)"

definition Chr :: "char \<Rightarrow> re" where
  "Chr c = Cls (\<lambda>x. x = c)"

definition Plus :: "re \<Rightarrow> re" where
  "Plus r = Seq r (Star r)"

definition Opt :: "re \<Rightarrow> re" where
  "Opt r = Alt r Eps"

text \<open>\<^verbatim>\<open>.\<close> (any character but a newline), \<^verbatim>\<open>\d\<close> and \<^verbatim>\<open>\S\<close> on 8-bit characters.\<close>

definition Dot :: re where
  "Dot = Cls (\<lambda>c. c \<noteq> CHR 0x0A)"

definition isdigit :: "char \<Rightarrow> bool" where
  "isdigit c = (c \<in> set ''0123456789'')"

definition isspace :: "char \<Rightarrow> bool" where
  "isspace c = (c \<in> {CHR 0x09, CHR 0x0A, CHR 0x0B, CHR 0x0C, CHR 0x0D,
                      CHR 0x1C, CHR 0x1D, CHR 0x1E, CHR 0x1F, CHR 0x20, CHR 0x85, CHR 0xA0})"

text \<open>The text of a literal string as a pattern (no metacharacter in it).\<close>

fun Lit :: "string \<Rightarrow> re" where
  "Lit [] = Eps"
| "Lit (c # cs) = Seq (Chr c) (Lit cs)"

text \<open>\<^verbatim>\<open>re.match\<close>: the pattern has to match at the beginning of the string.\<close>

definition re_match :: "re \<Rightarrow> string \<Rightarrow> mstate option" where
  "re_match r s = (case matches r ([], True, s) of [] \<Rightarrow> None | m # ms \<Rightarrow> Some m)"

text \<open>\<^verbatim>\<open>Match.group(n)\<close>: \<^verbatim>\<open>None\<close> for a group that took no part in the match.\<close>

definition group :: "mstate \<Rightarrow> nat \<Rightarrow> string option" where
  "group m n = map_of (fst m) n"

text \<open>
  The leftmost match at or after the current position: \<open>pre\<close> collects the text skipped.
  With \<open>must_advance\<close> an empty match at the first position is not accepted (Python 3.7
  and later set it after an empty match was replaced).
\<close>

fun search :: "re \<Rightarrow> bool \<Rightarrow> bool \<Rightarrow> string \<Rightarrow> string \<Rightarrow> (string \<times> mstate) option" where
  "search r bol must_advance pre s =
     (case filter (\<lambda>m. \<not> must_advance \<or> length (snd (snd m)) < length s)
                  (matches r ([], bol, s)) of
        m # ms \<Rightarrow> Some (pre, m)
      | [] \<Rightarrow> (case s of
                 [] \<Rightarrow> None
               | x # xs \<Rightarrow> search r False False (pre @ [x]) xs))"

declare search.simps [simp del]

text \<open>
  A replacement template: literal text and group references \<^verbatim>\<open>\1\<close>, \<^verbatim>\<open>\2\<close>, ...; a group
  that did not take part in the match expands to the empty string.
\<close>

datatype titem = Txt string | Ref nat

fun expand :: "titem list \<Rightarrow> caps \<Rightarrow> string" where
  "expand [] c = []"
| "expand (Txt s # ts) c = s @ expand ts c"
| "expand (Ref n # ts) c = (case map_of c n of Some g \<Rightarrow> g | None \<Rightarrow> []) @ expand ts c"

lemma star_length:
  assumes "\<And>st st'. st' \<in> set (f st) \<Longrightarrow> length (snd (snd st')) \<le> length (snd (snd st))"
  shows "st' \<in> set (star f st) \<Longrightarrow> length (snd (snd st')) \<le> length (snd (snd st))"
proof (induction f st arbitrary: st' rule: star.induct)
  case (1 f st)
  from "1.prems" have "st' = st \<or> (\<exists>m \<in> set (f st).
      length (snd (snd m)) < length (snd (snd st)) \<and> st' \<in> set (star f m))"
    by (subst (asm) star.simps) (auto split: if_splits)
  then show ?case
  proof
    assume "st' = st" then show ?thesis by simp
  next
    assume "\<exists>m \<in> set (f st). length (snd (snd m)) < length (snd (snd st)) \<and> st' \<in> set (star f m)"
    then obtain m where m: "m \<in> set (f st)" "length (snd (snd m)) < length (snd (snd st))"
      "st' \<in> set (star f m)" by blast
    from "1.IH" [OF m(1) m(2) m(3)] m(2) show ?thesis by simp
  qed
qed

lemma matches_length:
  "st' \<in> set (matches r st) \<Longrightarrow> length (snd (snd st')) \<le> length (snd (snd st))"
proof (induction r arbitrary: st st')
  case (Cls P)
  then show ?case by (cases st) (auto split: list.splits if_splits)
next
  case (Seq r1 r2)
  from Seq.prems obtain m where "m \<in> set (matches r1 st)" "st' \<in> set (matches r2 m)"
    by auto
  with Seq.IH show ?case by (meson le_trans)
next
  case (Star r)
  show ?case
    using Star.prems star_length [of "matches r" st' st] Star.IH by simp
qed (auto split: if_splits)

lemma search_length:
  "search r bol adv pre s = Some (pre', c, b, s') \<Longrightarrow>
     length pre' + length s' \<le> length pre + length s \<and> length pre \<le> length pre'
     \<and> (adv \<and> pre' = pre \<longrightarrow> length s' < length s)"
proof (induction r bol adv pre s rule: search.induct)
  case (1 r bol adv pre s)
  show ?case
  proof (cases "filter (\<lambda>m. \<not> adv \<or> length (snd (snd m)) < length s) (matches r ([], bol, s))")
    case Nil
    show ?thesis
    proof (cases s)
      case Nil
      with \<open>filter _ _ = []\<close> "1.prems" show ?thesis
        by (subst (asm) search.simps) simp
    next
      case (Cons x xs)
      with \<open>filter _ _ = []\<close> "1.prems"
      have "search r False False (pre @ [x]) xs = Some (pre', c, b, s')"
        by (subst (asm) search.simps) simp
      from "1.IH" [OF \<open>filter _ _ = []\<close> Cons this] Cons show ?thesis by auto
    qed
  next
    case (Cons m ms)
    with "1.prems" have eq: "pre' = pre" "m = (c, b, s')"
      by (subst (asm) search.simps, simp)+
    from Cons have "m \<in> set (filter (\<lambda>m. \<not> adv \<or> length (snd (snd m)) < length s)
        (matches r ([], bol, s)))" by simp
    then have "m \<in> set (matches r ([], bol, s))" "\<not> adv \<or> length (snd (snd m)) < length s"
      by auto
    with matches_length [of m r "([], bol, s)"] eq show ?thesis by auto
  qed
qed

text \<open>
  \<^verbatim>\<open>Pattern.sub(repl, string, count)\<close>: up to \<open>count\<close> leftmost non-overlapping matches are
  replaced (\<open>count = 0\<close>: all of them); \<open>n\<close> counts the replacements made. After an empty
  match the next one has to advance.
\<close>

function subx :: "re \<Rightarrow> titem list \<Rightarrow> nat \<Rightarrow> nat \<Rightarrow> bool \<Rightarrow> bool \<Rightarrow> string \<Rightarrow> string" where
  "subx r tmpl count n bol adv s =
     (if count \<noteq> 0 \<and> count \<le> n then s
      else case search r bol adv [] s of
             None \<Rightarrow> s
           | Some (pre, c, b, s') \<Rightarrow>
               pre @ expand tmpl c @
               subx r tmpl count (Suc n) (bol \<and> length s' = length s)
                    (length pre + length s' = length s) s')"
  by pat_completeness auto
termination
proof (relation "measures [\<lambda>(r, tmpl, count, n, bol, adv, s). length s,
                           \<lambda>(r, tmpl, count, n, bol, adv, s). if adv then 0 else 1]",
       goal_cases)
  case 1
  show ?case by simp
next
  case (2 r tmpl count n bol adv s x2 pre y c z b s')
  from search_length [of r bol adv "[]" s pre c b s'] 2
  have "length pre + length s' \<le> length s" "adv \<and> pre = [] \<longrightarrow> length s' < length s"
    by auto
  moreover have "pre \<noteq> [] \<longrightarrow> 0 < length pre" by simp
  ultimately have "length s' < length s
      \<or> (length s' = length s \<and> length pre + length s' = length s \<and> \<not> adv)"
    by linarith
  then show ?case by auto
qed

declare subx.simps [simp del]

definition re_sub :: "re \<Rightarrow> titem list \<Rightarrow> string \<Rightarrow> nat \<Rightarrow> string" where
  "re_sub r tmpl s count = subx r tmpl count 0 True False s"

section \<open>The harness: parameters, collections and effects\<close>

text \<open>
  The global parameters that \<^verbatim>\<open>run_tcase\<close> reads. \<open>FEATURE_LIST\<close> is \<^verbatim>\<open>_FEATURE_LIST\<close>, the
  features the subject advertises (\<^verbatim>\<open>init_features\<close>).
\<close>

record config =
  WITH_TIMEOUT :: int
  WITH_VALGRIND :: bool
  UNITS :: "string list"
  RUN_SHRINK :: bool
  FEATURE_LIST :: "string list"

definition TIMEOUT_EXIT :: int where
  "TIMEOUT_EXIT = 124"

definition VG_TIMEOUT_FACTOR :: int where
  "VG_TIMEOUT_FACTOR = 10"

definition VALGRIND_EXIT :: int where
  "VALGRIND_EXIT = 58"

text \<open>
  What a call of \<^verbatim>\<open>run_tcase\<close> does to the outside world, in the order in which it does
  it: the commands it runs, the files of the build directory it touches, and its calls
  of \<^verbatim>\<open>run_result\<close> (result type, message, whether the line is also written to
  \<^verbatim>\<open>RESULT.tmp\<close>, extra arguments).
\<close>

datatype output_type = Ctags | Etags | Xref | Json

datatype command =
    Dry_run
  | Print_language
  | List_languages
  | Subject "int option"
  | External_filter output_type
  | Diff

datatype result_type = skip | error | ok | known_error

datatype effect =
    Run command
  | Clean_tcase
  | Prepare_bundles
  | Record_cmdline
  | Internal_filter output_type
  | Shrink
  | Result result_type string bool "string list"

text \<open>The eleven result lists of the script, and the trace of effects.\<close>

record results =
  L_PASSED :: "string list"
  L_FIXED :: "string list"
  L_FAILED_BY_STATUS :: "string list"
  L_FAILED_BY_DIFF :: "string list"
  L_SKIPPED_BY_FEATURES :: "string list"
  L_SKIPPED_BY_LANGUAGES :: "string list"
  L_SKIPPED_BY_ILOOP :: "string list"
  L_KNOWN_BUGS :: "string list"
  L_FAILED_BY_TIMEED_OUT :: "string list"
  L_BROKEN_ARGS_CTAGS :: "string list"
  L_VALGRIND :: "string list"
  effects :: "effect list"

definition no_results :: results where
  "no_results = \<lparr>L_PASSED = [], L_FIXED = [], L_FAILED_BY_STATUS = [], L_FAILED_BY_DIFF = [],
     L_SKIPPED_BY_FEATURES = [], L_SKIPPED_BY_LANGUAGES = [], L_SKIPPED_BY_ILOOP = [],
     L_KNOWN_BUGS = [], L_FAILED_BY_TIMEED_OUT = [], L_BROKEN_ARGS_CTAGS = [],
     L_VALGRIND = [], effects = []\<rparr>"

definition emit :: "effect list \<Rightarrow> results \<Rightarrow> results" where
  "emit es st = st\<lparr>effects := effects st @ es\<rparr>"

text \<open>
  A test case as \<^verbatim>\<open>run_dir\<close> queues it, and what the file system and the commands answer
  while \<^verbatim>\<open>run_tcase\<close> handles it.
\<close>

record tcase =
  name :: string
  tclass :: char
  category :: string
  extra_inputs :: "string list"

text \<open>
  The command under test either exits after some time with an exit code, or never does.
  \<^verbatim>\<open>subprocess.run\<close> with a timeout raises \<^verbatim>\<open>TimeoutExpired\<close> when the command is still
  running at the deadline; without a timeout it waits for the command, for ever if need
  be (the value \<open>None\<close>).
\<close>

datatype behaviour = Exits nat int | Loops

datatype completed = TimeoutExpired | Returncode int

fun subprocess_run :: "int option \<Rightarrow> behaviour \<Rightarrow> completed option" where
  "subprocess_run None Loops = None"
| "subprocess_run None (Exits d rc) = Some (Returncode rc)"
| "subprocess_run (Some t) Loops = Some TimeoutExpired"
| "subprocess_run (Some t) (Exits d rc) =
     (if t < int d then Some TimeoutExpired else Some (Returncode rc))"

record tenv =
  expected_tags :: bool
  expected_tags_e :: bool
  expected_tags_x :: bool
  expected_tags_json :: bool
  filter_executable :: bool
  args_ctags :: bool
  dry_run_status :: int
  guessed_lang :: string
  same_dir :: bool
  features_file :: "string list option"
  languages_file :: "string list option"
  list_languages :: "string list"
  main_run :: behaviour
  cmp_equal :: bool
  diff_status :: int

section \<open>The gates\<close>

text \<open>The pattern \<^verbatim>\<open>(.+)/(.+)\<close> of \<^verbatim>\<open>check_units\<close>.\<close>

definition units_re :: re where
  "units_re = Seq (Grp 1 (Plus Dot)) (Seq (Chr CHR ''/'') (Grp 2 (Plus Dot)))"

fun check_units_loop :: "string list \<Rightarrow> string \<Rightarrow> string \<Rightarrow> bool" where
  "check_units_loop [] nm cat = False"
| "check_units_loop (u # us) nm cat =
     (case re_match units_re u of
        Some ret \<Rightarrow>
          if (group ret 1, group ret 2) = (Some cat, Some nm) then True
          else check_units_loop us nm cat
      | None \<Rightarrow> if u = nm then True else check_units_loop us nm cat)"

definition check_units :: "config \<Rightarrow> string \<Rightarrow> string \<Rightarrow> bool" where
  "check_units cfg nm cat =
     (if length (UNITS cfg) = 0 then True else check_units_loop (UNITS cfg) nm cat)"

text \<open>
  \<^verbatim>\<open>check_features(feature, ffile)\<close>: \<open>ffile\<close> is the list of lines of the features file,
  \<open>None\<close> when there is no such file.
\<close>

fun check_features_loop :: "string list \<Rightarrow> string list \<Rightarrow> bool \<times> string" where
  "check_features_loop [] fl = (True, [])"
| "check_features_loop (expected # rest) fl =
     (if expected = [] then check_features_loop rest fl
      else
        let found_unexpectedly = (hd expected = CHR ''!'' \<and> tl expected \<in> set fl);
            found = (hd expected \<noteq> CHR ''!'' \<and> expected \<in> set fl)
        in if found_unexpectedly then (False, expected)
           else if \<not> found then (False, expected)
           else check_features_loop rest fl)"

definition check_features :: "config \<Rightarrow> string \<Rightarrow> string list option \<Rightarrow> bool \<times> string" where
  "check_features cfg feature ffile =
     check_features_loop
       (if feature \<noteq> [] then [feature]
        else case ffile of Some ls \<Rightarrow> ls | None \<Rightarrow> [])
       (FEATURE_LIST cfg)"

text \<open>
  \<^verbatim>\<open>check_languages(cmdline, lfile)\<close>: the subject is asked for its languages only when
  the languages file exists.
\<close>

fun check_languages_loop :: "string list \<Rightarrow> string list \<Rightarrow> bool \<times> string" where
  "check_languages_loop [] langs = (True, [])"
| "check_languages_loop (expected # rest) langs =
     (if expected \<in> set langs then check_languages_loop rest langs
      else (False, expected))"

definition check_languages :: "tenv \<Rightarrow> (bool \<times> string) \<times> effect list" where
  "check_languages env =
     (case languages_file env of
        None \<Rightarrow> ((True, []), [])
      | Some ls \<Rightarrow> (check_languages_loop ls (list_languages env), [Run List_languages]))"

section \<open>Running one test case\<close>

function str_nat :: "nat \<Rightarrow> string" where
  "str_nat n =
     (if n < 10 then [''0123456789'' ! n]
      else str_nat (n div 10) @ [''0123456789'' ! (n mod 10)])"
  by pat_completeness auto
termination
  by (relation "measure id") auto

declare str_nat.simps [simp del]

definition str_int :: "int \<Rightarrow> string" where
  "str_int i = (if i < 0 then ''-'' @ str_nat (nat (- i)) else str_nat (nat i))"

text \<open>
  \<^verbatim>\<open>'%-59s ' % ('Testing ' + name + ' as ' + guessed_lang + output_lang_extras + output_label)\<close>
\<close>

definition testing_msg :: "string \<Rightarrow> string \<Rightarrow> string \<Rightarrow> string \<Rightarrow> string" where
  "testing_msg nm guessed output_lang_extras output_label =
     (let s = ''Testing '' @ nm @ '' as '' @ guessed @ output_lang_extras @ output_label
      in s @ replicate (59 - length s) CHR '' '' @ '' '')"

definition case_id :: "tcase \<Rightarrow> string" where
  "case_id tc = category tc @ ''/'' @ name tc"

definition shrink :: "config \<Rightarrow> tcase \<Rightarrow> effect list" where
  "shrink cfg tc = (if RUN_SHRINK cfg \<and> length (extra_inputs tc) = 0 then [Shrink] else [])"

text \<open>
  The choice of the expected output at the beginning of \<^verbatim>\<open>run_tcase\<close>: whether the file
  chosen exists, \<^verbatim>\<open>output_type\<close>, \<^verbatim>\<open>output_label\<close> and \<^verbatim>\<open>output_feature\<close>.
\<close>

definition select_expected :: "tenv \<Rightarrow> bool \<times> output_type \<times> string \<times> string" where
  "select_expected env =
     (if expected_tags env then (True, Ctags, [], [])
      else if expected_tags_e env then (True, Etags, ''/etags'', [])
      else if expected_tags_x env then (True, Xref, ''/xref'', [])
      else if expected_tags_json env then (True, Json, ''/json'', ''json'')
      else (False, Ctags, [], []))"

definition output_feature :: "tenv \<Rightarrow> string" where
  "output_feature env = snd (snd (snd (select_expected env)))"

text \<open>
  The end of \<^verbatim>\<open>run_tcase\<close>, from the comparison with the expected output on: \<open>rc\<close> is
  \<^verbatim>\<open>ret.returncode\<close> after \<^verbatim>\<open>filecmp.cmp\<close> or \<^verbatim>\<open>diff\<close>.
\<close>

definition compare_output ::
  "config \<Rightarrow> tenv \<Rightarrow> tcase \<Rightarrow> string \<Rightarrow> output_type \<Rightarrow> results \<Rightarrow> bool \<times> results" where
  "compare_output cfg env tc msg output_type st =
     (let st1 = emit [if filter_executable env then Run (External_filter output_type)
                      else Internal_filter output_type] st;
          (rc, st2) = (if cmp_equal env then (0, st1)
                       else (diff_status env, emit [Run Diff] st1))
      in if rc = 0 then
           let st3 = emit [Clean_tcase] st2;
               st4 = (if tclass tc = CHR ''b'' then st3\<lparr>L_FIXED := L_FIXED st3 @ [case_id tc]\<rparr>
                      else if WITH_TIMEOUT cfg \<noteq> 0 \<and> tclass tc = CHR ''i''
                      then st3\<lparr>L_FIXED := L_FIXED st3 @ [case_id tc]\<rparr>
                      else st3);
               st5 = st4\<lparr>L_PASSED := L_PASSED st4 @ [case_id tc]\<rparr>
           in (True, emit [Result ok msg False []] st5)
         else if tclass tc = CHR ''b'' then
           (True, emit [Result known_error msg True [], Record_cmdline]
                    (st2\<lparr>L_KNOWN_BUGS := L_KNOWN_BUGS st2 @ [case_id tc]\<rparr>))
         else
           (False, emit [Result error msg True [''unexpected output''], Record_cmdline]
                     (st2\<lparr>L_FAILED_BY_DIFF := L_FAILED_BY_DIFF st2 @ [case_id tc]\<rparr>)))"

text \<open>
  The middle of \<^verbatim>\<open>run_tcase\<close>: what follows the return of the command under test with
  exit code \<open>rc\<close>. \<open>fexpected\<close> tells whether the expected output chosen at the beginning
  is a file.
\<close>

definition after_run ::
  "config \<Rightarrow> tenv \<Rightarrow> tcase \<Rightarrow> string \<Rightarrow> bool \<Rightarrow> output_type \<Rightarrow> int \<Rightarrow> results
     \<Rightarrow> bool \<times> results" where
  \<open>after_run cfg env tc msg fexpected output_type rc st =
     (if rc \<noteq> 0 then
        if WITH_VALGRIND cfg \<and> rc = VALGRIND_EXIT \<and> tclass tc \<noteq> CHR ''v'' then
          (False, emit [Result error msg True [''valgrind-error''], Record_cmdline]
                    (st\<lparr>L_VALGRIND := L_VALGRIND st @ [case_id tc]\<rparr>))
        else if tclass tc = CHR ''b'' then
          (True, emit ([Result known_error msg True [], Record_cmdline] @ shrink cfg tc)
                   (st\<lparr>L_KNOWN_BUGS := L_KNOWN_BUGS st @ [case_id tc]\<rparr>))
        else
          (False, emit ([Result error msg True [''unexpected exit status: '' @ str_int rc],
                         Record_cmdline] @ shrink cfg tc)
                    (st\<lparr>L_FAILED_BY_STATUS := L_FAILED_BY_STATUS st @ [case_id tc]\<rparr>))
      else
        let st1 = (if WITH_VALGRIND cfg \<and> tclass tc = CHR ''v''
                   then st\<lparr>L_FIXED := L_FIXED st @ [case_id tc]\<rparr> else st)
        in if \<not> fexpected then
             let st2 = emit [Clean_tcase] st1;
                 st3 = (if tclass tc = CHR ''b'' then st2\<lparr>L_FIXED := L_FIXED st2 @ [case_id tc]\<rparr>
                        else if tclass tc = CHR ''i''
                        then st2\<lparr>L_FIXED := L_FIXED st2 @ [case_id tc]\<rparr>
                        else st2);
                 st4 = st3\<lparr>L_PASSED := L_PASSED st3 @ [case_id tc]\<rparr>
             in (True, emit [Result ok msg False [''"expected.tags*" not found'']] st4)
           else compare_output cfg env tc msg output_type st1)\<close>

text \<open>
  \<^verbatim>\<open>timeout_value\<close>: the timeout handed to \<^verbatim>\<open>subprocess.run\<close> for the command under test.
\<close>

definition timeout_value :: "config \<Rightarrow> int option" where
  "timeout_value cfg =
     (let timeout_value = WITH_TIMEOUT cfg;
          timeout_value = (if WITH_VALGRIND cfg then timeout_value * VG_TIMEOUT_FACTOR
                           else timeout_value)
      in if timeout_value = 0 then None else Some timeout_value)"

text \<open>
  The part of \<^verbatim>\<open>run_tcase\<close> that runs the command under test, once every gate is passed.
  The result is \<open>None\<close> when \<^verbatim>\<open>subprocess.run\<close> never returns: the command loops and no
  timeout is set.
\<close>

definition run_subject ::
  "config \<Rightarrow> tenv \<Rightarrow> tcase \<Rightarrow> string \<Rightarrow> bool \<Rightarrow> output_type \<Rightarrow> results
     \<Rightarrow> (bool \<times> results) option" where
  "run_subject cfg env tc msg fexpected output_type st =
     (let st1 = emit [Run (Subject (timeout_value cfg))] st
      in case subprocess_run (timeout_value cfg) (main_run env) of
           None \<Rightarrow> None
         | Some TimeoutExpired \<Rightarrow>
             Some (False,
               emit ([Result error msg True [''TIMED OUT''], Record_cmdline] @ shrink cfg tc)
                 (st1\<lparr>L_FAILED_BY_TIMEED_OUT := L_FAILED_BY_TIMEED_OUT st1 @ [case_id tc]\<rparr>))
         | Some (Returncode rc) \<Rightarrow>
             Some (after_run cfg env tc msg fexpected output_type rc
                     (emit [Record_cmdline] st1)))"

text \<open>
  What \<^verbatim>\<open>run_tcase\<close> does between the unit filter and the feature check: the dry run
  of \<^verbatim>\<open>args.ctags\<close> if there is such a file, the language probe, and the preparation of
  the build directory.
\<close>

definition setup_effects :: "tenv \<Rightarrow> effect list" where
  "setup_effects env =
     (if args_ctags env then [Run Dry_run] else [])
     @ [Run Print_language, Clean_tcase]
     @ (if same_dir env then [] else [Prepare_bundles])"

definition output_lang_extras :: "tcase \<Rightarrow> string" where
  "output_lang_extras tc = (if length (extra_inputs tc) > 0 then '' (multi inputs)'' else [])"

text \<open>
  \<^verbatim>\<open>run_tcase\<close>: the value returned with the collections and effects after the call,
  or \<open>None\<close> when the call never returns.
\<close>

definition run_tcase :: "config \<Rightarrow> tenv \<Rightarrow> tcase \<Rightarrow> results \<Rightarrow> (bool \<times> results) option" where
  \<open>run_tcase cfg env tc st =
     (let (fexpected, output_type, output_label, output_feature) = select_expected env
      in
      if \<not> check_units cfg (name tc) (category tc) then Some (False, st)
      else
        let broken_args_ctags = (args_ctags env \<and> dry_run_status env \<noteq> 0);
            st1 = emit (setup_effects env) st;
            msg = testing_msg (name tc) (guessed_lang env) (output_lang_extras tc) output_label;
            (tmp, feat) = check_features cfg output_feature (features_file env)
        in
        if \<not> tmp then
          Some (False,
            emit [Result skip msg True
                   [if take 1 feat = ''!''
                    then ''unwanted feature "'' @ tl feat @ ''" is available''
                    else ''required feature "'' @ feat @ ''" is not available'']]
              (st1\<lparr>L_SKIPPED_BY_FEATURES := L_SKIPPED_BY_FEATURES st1 @ [case_id tc]\<rparr>))
        else
          let ((tmp, lang), es) = check_languages env;
              st2 = emit es st1
          in
          if \<not> tmp then
            Some (False,
              emit [Result skip msg True
                     [''required language parser "'' @ lang @ ''" is not available'']]
                (st2\<lparr>L_SKIPPED_BY_LANGUAGES := L_SKIPPED_BY_LANGUAGES st2 @ [case_id tc]\<rparr>))
          else if WITH_TIMEOUT cfg = 0 \<and> tclass tc = CHR ''i'' then
            Some (False,
              emit [Result skip msg True [''may cause an infinite loop'']]
                (st2\<lparr>L_SKIPPED_BY_ILOOP := L_SKIPPED_BY_ILOOP st2 @ [case_id tc]\<rparr>))
          else if broken_args_ctags then
            Some (False,
              emit [Result error msg False [''broken args.ctags?'']]
                (st2\<lparr>L_BROKEN_ARGS_CTAGS := L_BROKEN_ARGS_CTAGS st2 @ [case_id tc]\<rparr>))
          else run_subject cfg env tc msg fexpected output_type st2)\<close>

section \<open>The whole run\<close>

text \<open>
  \<^verbatim>\<open>action_run\<close> hands every discovered case to \<^verbatim>\<open>run_tcase\<close> and returns 1 or 0 from four
  of the collections. The cases are taken here one after the other.
\<close>

fun run_all :: "config \<Rightarrow> (tenv \<times> tcase) list \<Rightarrow> results \<Rightarrow> results option" where
  "run_all cfg [] st = Some st"
| "run_all cfg (c # cs) st =
     (case run_tcase cfg (fst c) (snd c) st of
        None \<Rightarrow> None
      | Some r \<Rightarrow> run_all cfg cs (snd r))"

definition exit_status :: "results \<Rightarrow> int" where
  "exit_status st =
     (if L_FAILED_BY_STATUS st \<noteq> [] \<or> L_FAILED_BY_DIFF st \<noteq> []
         \<or> L_FAILED_BY_TIMEED_OUT st \<noteq> [] \<or> L_BROKEN_ARGS_CTAGS st \<noteq> []
      then 1 else 0)"

definition action_run :: "config \<Rightarrow> (tenv \<times> tcase) list \<Rightarrow> int option" where
  "action_run cfg cases = map_option exit_status (run_all cfg cases no_results)"

section \<open>The internal output filter\<close>

text \<open>
  \<^verbatim>\<open>basename_filter(True, output_type)\<close>: the pattern and the replacement of each output
  format, from \<^verbatim>\<open>filters_internal\<close>:
  \<^verbatim>\<open>(^[^\t]+\t)(/?([^/\t]+/)*)\<close> with \<^verbatim>\<open>\1\<close>,
  \<^verbatim>\<open>.*/(\S+),([0-9]+$)\<close> with \<^verbatim>\<open>\1,\2\<close>,
  \<^verbatim>\<open>(.*\d+ )([^ ]+[^ ]+)/([^ ].+.+$)\<close> with \<^verbatim>\<open>\1\3\<close>,
  \<^verbatim>\<open>("path": )"[^"]+/([^/"]+)"\<close> with \<^verbatim>\<open>\1"\2"\<close>.
\<close>

definition TAB :: char where
  "TAB = CHR 0x09"

definition basename_filter :: "output_type \<Rightarrow> re \<times> titem list" where
  \<open>basename_filter output_type =
     (case output_type of
        Ctags \<Rightarrow>
          (Seq (Grp 1 (Seq Bol (Seq (Plus (Cls (\<lambda>c. c \<noteq> TAB))) (Chr TAB))))
               (Grp 2 (Seq (Opt (Chr CHR ''/''))
                           (Star (Grp 3 (Seq (Plus (Cls (\<lambda>c. c \<noteq> CHR ''/'' \<and> c \<noteq> TAB)))
                                             (Chr CHR ''/'')))))),
           [Ref 1])
      | Etags \<Rightarrow>
          (Seq (Star Dot)
               (Seq (Chr CHR ''/'')
                    (Seq (Grp 1 (Plus (Cls (\<lambda>c. \<not> isspace c))))
                         (Seq (Chr CHR '','')
                              (Grp 2 (Seq (Plus (Cls (\<lambda>c. c \<in> set ''0123456789''))) Eol))))),
           [Ref 1, Txt '','', Ref 2])
      | Xref \<Rightarrow>
          (Seq (Grp 1 (Seq (Star Dot) (Seq (Plus (Cls isdigit)) (Chr CHR '' ''))))
               (Seq (Grp 2 (Seq (Plus (Cls (\<lambda>c. c \<noteq> CHR '' '')))
                                (Plus (Cls (\<lambda>c. c \<noteq> CHR '' '')))))
                    (Seq (Chr CHR ''/'')
                         (Grp 3 (Seq (Cls (\<lambda>c. c \<noteq> CHR '' ''))
                                     (Seq (Plus Dot) (Seq (Plus Dot) Eol)))))),
           [Ref 1, Ref 3])
      | Json \<Rightarrow>
          (Seq (Grp 1 (Lit ''"path": ''))
               (Seq (Chr CHR ''"'')
                    (Seq (Plus (Cls (\<lambda>c. c \<noteq> CHR ''"'')))
                         (Seq (Chr CHR ''/'')
                              (Seq (Grp 2 (Plus (Cls (\<lambda>c. c \<noteq> CHR ''/'' \<and> c \<noteq> CHR ''"''))))
                                   (Chr CHR ''"''))))),
           [Ref 1, Txt ''"'', Ref 2, Txt ''"'']))\<close>

text \<open>
  \<^verbatim>\<open>run_filter\<close>: on every line, the base filter with count 1, then every anonymizing
  pair in turn without a count. \<open>anon_filters\<close> holds the pairs with their patterns
  compiled.
\<close>

definition run_filter_line :: "re \<times> titem list \<Rightarrow> (re \<times> titem list) list \<Rightarrow> string \<Rightarrow> string" where
  "run_filter_line base_filter anon_filters l =
     foldl (\<lambda>l p. re_sub (fst p) (snd p) l 0)
           (re_sub (fst base_filter) (snd base_filter) l 1)
           anon_filters"

definition run_filter :: "string list \<Rightarrow> re \<times> titem list \<Rightarrow> (re \<times> titem list) list \<Rightarrow> string list" where
  "run_filter fin base_filter anon_filters = map (run_filter_line base_filter anon_filters) fin"

section \<open>Outcomes\<close>

text \<open>The outcome that each collection stands for.\<close>

datatype outcome =
    Passed | Fixed | FailedStatus | FailedDiff | SkippedFeature | SkippedLanguage
  | SkippedInfiniteLoopRisk | KnownBug | TimedOut | BrokenPrerequisite | ValgrindError

fun collection :: "outcome \<Rightarrow> results \<Rightarrow> string list" where
  "collection Passed = L_PASSED"
| "collection Fixed = L_FIXED"
| "collection FailedStatus = L_FAILED_BY_STATUS"
| "collection FailedDiff = L_FAILED_BY_DIFF"
| "collection SkippedFeature = L_SKIPPED_BY_FEATURES"
| "collection SkippedLanguage = L_SKIPPED_BY_LANGUAGES"
| "collection SkippedInfiniteLoopRisk = L_SKIPPED_BY_ILOOP"
| "collection KnownBug = L_KNOWN_BUGS"
| "collection TimedOut = L_FAILED_BY_TIMEED_OUT"
| "collection BrokenPrerequisite = L_BROKEN_ARGS_CTAGS"
| "collection ValgrindError = L_VALGRIND"

definition outcomes :: "outcome list" where
  "outcomes = [Passed, Fixed, FailedStatus, FailedDiff, SkippedFeature, SkippedLanguage,
     SkippedInfiniteLoopRisk, KnownBug, TimedOut, BrokenPrerequisite, ValgrindError]"

text \<open>
  The collections that hold the case after \<^verbatim>\<open>run_tcase\<close> ran on it with all collections
  empty, and the commands that the call ran; \<open>None\<close> when the call does not return.
\<close>

definition classified :: "config \<Rightarrow> tenv \<Rightarrow> tcase \<Rightarrow> outcome list option" where
  "classified cfg env tc =
     map_option (\<lambda>r. filter (\<lambda>out. case_id tc \<in> set (collection out (snd r))) outcomes)
       (run_tcase cfg env tc no_results)"

fun commands :: "effect list \<Rightarrow> command list" where
  "commands [] = []"
| "commands (Run c # es) = c # commands es"
| "commands (e # es) = commands es"

definition trace :: "config \<Rightarrow> tenv \<Rightarrow> tcase \<Rightarrow> effect list option" where
  "trace cfg env tc = map_option (\<lambda>r. effects (snd r)) (run_tcase cfg env tc no_results)"

definition invoked :: "config \<Rightarrow> tenv \<Rightarrow> tcase \<Rightarrow> command list option" where
  "invoked cfg env tc = map_option commands (trace cfg env tc)"

text \<open>
  Between two states: the case identifier was appended once to each collection of \<open>outs\<close>
  and every other collection is as before; the effects added.
\<close>

definition appended_to :: "outcome list \<Rightarrow> string \<Rightarrow> results \<Rightarrow> results \<Rightarrow> bool" where
  "appended_to outs cid st st' =
     list_all (\<lambda>out. collection out st' =
                       collection out st @ (if out \<in> set outs then [cid] else []))
              outcomes"

definition new_effects :: "results \<Rightarrow> results \<Rightarrow> effect list" where
  "new_effects st st' = drop (length (effects st)) (effects st')"

text \<open>The gates of \<^verbatim>\<open>run_tcase\<close> before the command under test is run, one by one.\<close>

definition unit_gate :: "config \<Rightarrow> tcase \<Rightarrow> bool" where
  "unit_gate cfg tc = check_units cfg (name tc) (category tc)"

definition feature_gate :: "config \<Rightarrow> tenv \<Rightarrow> bool" where
  "feature_gate cfg env = fst (check_features cfg (output_feature env) (features_file env))"

definition language_gate :: "tenv \<Rightarrow> bool" where
  "language_gate env = fst (fst (check_languages env))"

definition iloop_gate :: "config \<Rightarrow> tcase \<Rightarrow> bool" where
  "iloop_gate cfg tc = (\<not> (WITH_TIMEOUT cfg = 0 \<and> tclass tc = CHR ''i''))"

definition args_gate :: "tenv \<Rightarrow> bool" where
  "args_gate env = (\<not> (args_ctags env \<and> dry_run_status env \<noteq> 0))"

definition gates_pass :: "config \<Rightarrow> tenv \<Rightarrow> tcase \<Rightarrow> bool" where
  "gates_pass cfg env tc =
     (unit_gate cfg tc \<and> feature_gate cfg env \<and> language_gate env \<and> iloop_gate cfg tc
      \<and> args_gate env)"

text \<open>Inputs for the examples below.\<close>

definition cfg0 :: config where
  "cfg0 = \<lparr>WITH_TIMEOUT = 0, WITH_VALGRIND = False, UNITS = [], RUN_SHRINK = False,
     FEATURE_LIST = [''regex'', ''xpath'']\<rparr>"

definition env0 :: tenv where
  "env0 = \<lparr>expected_tags = True, expected_tags_e = False, expected_tags_x = False,
     expected_tags_json = False, filter_executable = False, args_ctags = False,
     dry_run_status = 0, guessed_lang = ''C'', same_dir = True, features_file = None,
     languages_file = None, list_languages = [''C'', ''Python''], main_run = Exits 1 0,
     cmp_equal = True, diff_status = 0\<rparr>"

definition tc0 :: "string \<Rightarrow> char \<Rightarrow> tcase" where
  "tc0 nm cls = \<lparr>name = nm, tclass = cls, category = ''ROOT'', extra_inputs = []\<rparr>"

text \<open>The message that \<^verbatim>\<open>run_tcase\<close> builds for a case.\<close>

definition msg_of :: "tenv \<Rightarrow> tcase \<Rightarrow> string" where
  "msg_of env tc = testing_msg (name tc) (guessed_lang env) (output_lang_extras tc)
     (fst (snd (snd (select_expected env))))"

text \<open>Two states put together, collection by collection.\<close>

definition merge :: "results \<Rightarrow> results \<Rightarrow> results" where
  "merge st d = \<lparr>L_PASSED = L_PASSED st @ L_PASSED d, L_FIXED = L_FIXED st @ L_FIXED d,
     L_FAILED_BY_STATUS = L_FAILED_BY_STATUS st @ L_FAILED_BY_STATUS d,
     L_FAILED_BY_DIFF = L_FAILED_BY_DIFF st @ L_FAILED_BY_DIFF d,
     L_SKIPPED_BY_FEATURES = L_SKIPPED_BY_FEATURES st @ L_SKIPPED_BY_FEATURES d,
     L_SKIPPED_BY_LANGUAGES = L_SKIPPED_BY_LANGUAGES st @ L_SKIPPED_BY_LANGUAGES d,
     L_SKIPPED_BY_ILOOP = L_SKIPPED_BY_ILOOP st @ L_SKIPPED_BY_ILOOP d,
     L_KNOWN_BUGS = L_KNOWN_BUGS st @ L_KNOWN_BUGS d,
     L_FAILED_BY_TIMEED_OUT = L_FAILED_BY_TIMEED_OUT st @ L_FAILED_BY_TIMEED_OUT d,
     L_BROKEN_ARGS_CTAGS = L_BROKEN_ARGS_CTAGS st @ L_BROKEN_ARGS_CTAGS d,
     L_VALGRIND = L_VALGRIND st @ L_VALGRIND d,
     effects = effects st @ effects d\<rparr>"

text \<open>
  The collections to which each part of \<^verbatim>\<open>run_tcase\<close> appends the case, read off the
  definitions above; the lemmas below show that this is what the parts do.
\<close>

definition compare_outs :: "config \<Rightarrow> tenv \<Rightarrow> tcase \<Rightarrow> outcome list" where
  "compare_outs cfg env tc =
     (if cmp_equal env \<or> diff_status env = 0 then
        (if tclass tc = CHR ''b'' \<or> (WITH_TIMEOUT cfg \<noteq> 0 \<and> tclass tc = CHR ''i'')
         then [Fixed] else []) @ [Passed]
      else if tclass tc = CHR ''b'' then [KnownBug] else [FailedDiff])"

definition after_outs :: "config \<Rightarrow> tenv \<Rightarrow> tcase \<Rightarrow> bool \<Rightarrow> int \<Rightarrow> outcome list" where
  "after_outs cfg env tc fe rc =
     (if rc \<noteq> 0 then
        (if WITH_VALGRIND cfg \<and> rc = VALGRIND_EXIT \<and> tclass tc \<noteq> CHR ''v'' then [ValgrindError]
         else if tclass tc = CHR ''b'' then [KnownBug] else [FailedStatus])
      else (if WITH_VALGRIND cfg \<and> tclass tc = CHR ''v'' then [Fixed] else [])
           @ (if \<not> fe then (if tclass tc = CHR ''b'' \<or> tclass tc = CHR ''i'' then [Fixed] else [])
                             @ [Passed]
              else compare_outs cfg env tc))"

definition tcase_outs :: "config \<Rightarrow> tenv \<Rightarrow> tcase \<Rightarrow> outcome list option" where
  "tcase_outs cfg env tc =
     (if \<not> unit_gate cfg tc then Some []
      else if \<not> feature_gate cfg env then Some [SkippedFeature]
      else if \<not> language_gate env then Some [SkippedLanguage]
      else if \<not> iloop_gate cfg tc then Some [SkippedInfiniteLoopRisk]
      else if \<not> args_gate env then Some [BrokenPrerequisite]
      else case subprocess_run (timeout_value cfg) (main_run env) of
             None \<Rightarrow> None
           | Some TimeoutExpired \<Rightarrow> Some [TimedOut]
           | Some (Returncode rc) \<Rightarrow> Some (after_outs cfg env tc (fst (select_expected env)) rc))"

section \<open>Single patterns\<close>

text \<open>
  Rewriting the leftmost match only: the text before it, the replacement, and the text
  after it as it is.
\<close>

definition first_match_only :: "re \<Rightarrow> titem list \<Rightarrow> string \<Rightarrow> string" where
  "first_match_only r tmpl l =
     (case search r True False [] l of
        None \<Rightarrow> l
      | Some (pre, c, b, rest) \<Rightarrow> pre @ expand tmpl c @ rest)"

text \<open>
  Replacing every occurrence of a non-empty text \<open>p\<close> by \<open>q\<close>, from left to right; an
  occurrence that overlaps a replaced one is not an occurrence any more.
\<close>

function replace_all :: "string \<Rightarrow> string \<Rightarrow> string \<Rightarrow> string" where
  "replace_all p q [] = []"
| "replace_all p q (x # xs) =
     (if p \<noteq> [] \<and> take (length p) (x # xs) = p
      then q @ replace_all p q (drop (length p) (x # xs))
      else x # replace_all p q xs)"
  by pat_completeness auto
termination
  by (relation "measure (\<lambda>(p, q, s). length s)") auto

text \<open>
  An anonymizing pair of \<^verbatim>\<open>anon_normalize_sub\<close>, compiled by \<^verbatim>\<open>run_filter\<close>: both parts are
  hashes as the subject prints them, hexadecimal digits, so that the pattern stands for
  its own text and the replacement has no group reference.
\<close>

definition compile_anon :: "string \<times> string \<Rightarrow> re \<times> titem list" where
  "compile_anon p = (Lit (fst p), [Txt (snd p)])"

text \<open>
  The rest of this section describes single patterns by list functions, for the proofs
  below. \<open>runs P\<close>: the states after a greedy repetition of a character class, longest
  first.
\<close>

fun runs :: "(char \<Rightarrow> bool) \<Rightarrow> caps \<Rightarrow> bool \<Rightarrow> string \<Rightarrow> mstate list" where
  "runs P c b [] = [(c, b, [])]"
| "runs P c b (x # xs) = (if P x then runs P c False xs else []) @ [(c, b, x # xs)]"

text \<open>
  The text after a run of characters of \<open>P\<close> (non-empty for \<open>after_run_of\<close>) and one
  character \<open>t\<close>.
\<close>

definition after_rest :: "(char \<Rightarrow> bool) \<Rightarrow> char \<Rightarrow> string \<Rightarrow> string option" where
  "after_rest P t s =
     (case dropWhile P s of [] \<Rightarrow> None | y # r \<Rightarrow> if y = t then Some r else None)"

definition after_run_of :: "(char \<Rightarrow> bool) \<Rightarrow> char \<Rightarrow> string \<Rightarrow> string option" where
  "after_run_of P t s =
     (case s of [] \<Rightarrow> None | x # xs \<Rightarrow> if P x then after_rest P t xs else None)"

lemma after_rest_length: "after_rest P t s = Some r \<Longrightarrow> length r < length s"
proof -
  assume a: "after_rest P t s = Some r"
  then obtain y where "dropWhile P s = y # r"
    by (auto simp: after_rest_def split: list.splits if_splits)
  then have "length (dropWhile P s) = Suc (length r)" by simp
  moreover have "length (dropWhile P s) \<le> length s" by (rule length_dropWhile_le)
  ultimately show ?thesis by simp
qed

lemma after_run_of_length: "after_run_of P t s = Some r \<Longrightarrow> length r < length s"
  by (cases s) (auto simp: after_run_of_def split: if_splits dest: after_rest_length)

text \<open>
  What \<^verbatim>\<open>([^/\t]+/)*\<close> and \<^verbatim>\<open>/?\<close> leave of a text, and the line that the filter for the
  ctags format makes of a line.
\<close>

function strip_dirs :: "string \<Rightarrow> string" where
  "strip_dirs s =
     (case after_run_of (\<lambda>c. c \<noteq> CHR ''/'' \<and> c \<noteq> TAB) CHR ''/'' s of
        None \<Rightarrow> s
      | Some r \<Rightarrow> strip_dirs r)"
  by pat_completeness auto
termination
  by (relation "measure length") (auto simp: after_run_of_length)

declare strip_dirs.simps [simp del]

fun opt_slash :: "string \<Rightarrow> string" where
  "opt_slash [] = []"
| "opt_slash (x # xs) = (if x = CHR ''/'' then xs else x # xs)"

definition ctags_basename :: "string \<Rightarrow> string" where
  "ctags_basename l =
     (case after_run_of (\<lambda>c. c \<noteq> TAB) TAB l of
        None \<Rightarrow> l
      | Some rest \<Rightarrow> take (length l - length rest) l @ strip_dirs (opt_slash rest))"

text \<open>The parts of the pattern for the ctags format.\<close>

definition G3 :: re where
  "G3 = Grp 3 (Seq (Plus (Cls (\<lambda>c. c \<noteq> CHR ''/'' \<and> c \<noteq> TAB))) (Chr CHR ''/''))"

definition ctags_re :: re where
  "ctags_re = fst (basename_filter Ctags)"

definition G1 :: re where
  "G1 = Grp 1 (Seq Bol (Seq (Plus (Cls (\<lambda>c. c \<noteq> TAB))) (Chr TAB)))"

definition G2 :: re where
  "G2 = Grp 2 (Seq (Opt (Chr CHR ''/'')) (Star G3))"

text \<open>
  Two slashes in a row somewhere in a text, and the second field of a line of tags, the
  name of the input file.
\<close>

fun dslash :: "string \<Rightarrow> bool" where
  "dslash (x # y # zs) = ((x = CHR ''/'' \<and> y = CHR ''/'') \<or> dslash (y # zs))"
| "dslash [x] = False"
| "dslash [] = False"

definition file_field :: "string \<Rightarrow> string" where
  "file_field l = takeWhile (\<lambda>c. c \<noteq> TAB) (drop 1 (dropWhile (\<lambda>c. c \<noteq> TAB) l))"

text \<open>
  The first substitution of \<^verbatim>\<open>run_filter\<close> on a line: the base filter of the output format,
  with count 1.
\<close>

definition basename_sub :: "output_type \<Rightarrow> string \<Rightarrow> string" where
  "basename_sub output_type l =
     re_sub (fst (basename_filter output_type)) (snd (basename_filter output_type)) l 1"

text \<open>
  The pattern for the etags format: the part after the slash, whether it matches a
  text, the text that stays when the filter is applied at the beginning of a text
  (after the last slash from which the rest matches), and the line that the filter makes
  of a line.
\<close>

definition NL :: char where
  "NL = CHR 0x0A"

definition ET :: re where
  "ET = Seq (Grp 1 (Plus (Cls (\<lambda>c. \<not> isspace c))))
            (Seq (Chr CHR '','')
                 (Grp 2 (Seq (Plus (Cls (\<lambda>c. c \<in> set ''0123456789''))) Eol)))"

definition etags_re :: re where
  "etags_re = fst (basename_filter Etags)"

definition etags_tail_ok :: "string \<Rightarrow> bool" where
  "etags_tail_ok t = (matches ET ([], False, t) \<noteq> [])"

fun etags_tail :: "string \<Rightarrow> string option" where
  "etags_tail [] = None"
| "etags_tail (x # xs) =
     (case (if x \<noteq> NL then etags_tail xs else None) of
        Some t \<Rightarrow> Some t
      | None \<Rightarrow> if x = CHR ''/'' \<and> etags_tail_ok xs then Some xs else None)"

fun etags_sub :: "string \<Rightarrow> string" where
  "etags_sub [] = []"
| "etags_sub (x # xs) = (case etags_tail (x # xs) of Some t \<Rightarrow> t | None \<Rightarrow> x # etags_sub xs)"

definition etags_tmpl :: "titem list" where
  "etags_tmpl = snd (basename_filter Etags)"

section \<open>What a run appends\<close>

lemma run_tcase_gated:
  assumes "gates_pass cfg env tc"
  shows "run_tcase cfg env tc st =
     run_subject cfg env tc (msg_of env tc) (fst (select_expected env))
       (fst (snd (select_expected env)))
       (emit (snd (check_languages env)) (emit (setup_effects env) st))"
proof -
  obtain fe ot ol ofe where se: "select_expected env = (fe, ot, ol, ofe)"
    by (cases "select_expected env") auto
  obtain tmp feat where cf: "check_features cfg ofe (features_file env) = (tmp, feat)"
    by (cases "check_features cfg ofe (features_file env)") auto
  obtain tmp2 lang es where cl: "check_languages env = ((tmp2, lang), es)"
    by (cases "check_languages env") auto
  from assms se cf cl have g: "check_units cfg (name tc) (category tc) = True" "tmp = True" "tmp2 = True"
    "(WITH_TIMEOUT cfg = 0 \<and> tclass tc = CHR ''i'') = False"
    "(args_ctags env \<and> dry_run_status env \<noteq> 0) = False"
    by (simp_all add: gates_pass_def unit_gate_def feature_gate_def language_gate_def
        iloop_gate_def args_gate_def output_feature_def)
  show ?thesis
    unfolding run_tcase_def se cf cl Let_def prod.case g msg_of_def
    by simp
qed

lemma merge_no_results [simp]: "merge st no_results = st"
  by (simp add: merge_def no_results_def)

lemma merge_emit: "emit es (merge st d) = merge st (emit es d)"
  by (simp add: merge_def emit_def)

lemma merge_upd:
  "(merge st d)\<lparr>L_PASSED := L_PASSED (merge st d) @ [x]\<rparr> = merge st (d\<lparr>L_PASSED := L_PASSED d @ [x]\<rparr>)"
  "(merge st d)\<lparr>L_FIXED := L_FIXED (merge st d) @ [x]\<rparr> = merge st (d\<lparr>L_FIXED := L_FIXED d @ [x]\<rparr>)"
  "(merge st d)\<lparr>L_FAILED_BY_STATUS := L_FAILED_BY_STATUS (merge st d) @ [x]\<rparr> = merge st (d\<lparr>L_FAILED_BY_STATUS := L_FAILED_BY_STATUS d @ [x]\<rparr>)"
  "(merge st d)\<lparr>L_FAILED_BY_DIFF := L_FAILED_BY_DIFF (merge st d) @ [x]\<rparr> = merge st (d\<lparr>L_FAILED_BY_DIFF := L_FAILED_BY_DIFF d @ [x]\<rparr>)"
  "(merge st d)\<lparr>L_SKIPPED_BY_FEATURES := L_SKIPPED_BY_FEATURES (merge st d) @ [x]\<rparr> = merge st (d\<lparr>L_SKIPPED_BY_FEATURES := L_SKIPPED_BY_FEATURES d @ [x]\<rparr>)"
  "(merge st d)\<lparr>L_SKIPPED_BY_LANGUAGES := L_SKIPPED_BY_LANGUAGES (merge st d) @ [x]\<rparr> = merge st (d\<lparr>L_SKIPPED_BY_LANGUAGES := L_SKIPPED_BY_LANGUAGES d @ [x]\<rparr>)"
  "(merge st d)\<lparr>L_SKIPPED_BY_ILOOP := L_SKIPPED_BY_ILOOP (merge st d) @ [x]\<rparr> = merge st (d\<lparr>L_SKIPPED_BY_ILOOP := L_SKIPPED_BY_ILOOP d @ [x]\<rparr>)"
  "(merge st d)\<lparr>L_KNOWN_BUGS := L_KNOWN_BUGS (merge st d) @ [x]\<rparr> = merge st (d\<lparr>L_KNOWN_BUGS := L_KNOWN_BUGS d @ [x]\<rparr>)"
  "(merge st d)\<lparr>L_FAILED_BY_TIMEED_OUT := L_FAILED_BY_TIMEED_OUT (merge st d) @ [x]\<rparr> = merge st (d\<lparr>L_FAILED_BY_TIMEED_OUT := L_FAILED_BY_TIMEED_OUT d @ [x]\<rparr>)"
  "(merge st d)\<lparr>L_BROKEN_ARGS_CTAGS := L_BROKEN_ARGS_CTAGS (merge st d) @ [x]\<rparr> = merge st (d\<lparr>L_BROKEN_ARGS_CTAGS := L_BROKEN_ARGS_CTAGS d @ [x]\<rparr>)"
  "(merge st d)\<lparr>L_VALGRIND := L_VALGRIND (merge st d) @ [x]\<rparr> = merge st (d\<lparr>L_VALGRIND := L_VALGRIND d @ [x]\<rparr>)"
  by (simp_all add: merge_def)

lemma compare_output_frame:
  "compare_output cfg env tc msg ot (merge st d) =
     (fst (compare_output cfg env tc msg ot d), merge st (snd (compare_output cfg env tc msg ot d)))"
  unfolding compare_output_def Let_def
  by (simp add: merge_upd merge_emit split: prod.splits)

lemma after_run_frame:
  "after_run cfg env tc msg fe ot rc (merge st d) =
     (fst (after_run cfg env tc msg fe ot rc d), merge st (snd (after_run cfg env tc msg fe ot rc d)))"
  unfolding after_run_def Let_def
  by (simp add: merge_upd merge_emit compare_output_frame)

lemma run_subject_frame:
  "run_subject cfg env tc msg fe ot (merge st d) =
     map_option (\<lambda>r. (fst r, merge st (snd r))) (run_subject cfg env tc msg fe ot d)"
  unfolding run_subject_def Let_def
  by (simp add: merge_upd merge_emit after_run_frame split: option.splits completed.splits)

lemma run_tcase_merge:
  "run_tcase cfg env tc (merge st d) =
     map_option (\<lambda>r. (fst r, merge st (snd r))) (run_tcase cfg env tc d)"
proof -
  obtain fe ot ol ofe where se: "select_expected env = (fe, ot, ol, ofe)"
    by (cases "select_expected env") auto
  obtain tmp feat where cf: "check_features cfg ofe (features_file env) = (tmp, feat)"
    by (cases "check_features cfg ofe (features_file env)") auto
  obtain tmp2 lang es where cl: "check_languages env = ((tmp2, lang), es)"
    by (cases "check_languages env") auto
  show ?thesis
    unfolding run_tcase_def se cf cl Let_def prod.case
    by (simp add: merge_upd merge_emit run_subject_frame)
qed

lemma run_tcase_frame:
  "run_tcase cfg env tc st =
     map_option (\<lambda>r. (fst r, merge st (snd r))) (run_tcase cfg env tc no_results)"
  using run_tcase_merge [of cfg env tc st no_results] by simp

lemma appended_to_emit [simp]:
  "appended_to outs cid st (emit es st') = appended_to outs cid st st'"
  by (simp add: appended_to_def emit_def outcomes_def)

lemma appended_to_start [simp]:
  "appended_to outs cid (emit es st) st' = appended_to outs cid st st'"
  by (simp add: appended_to_def emit_def outcomes_def)

lemma compare_output_appended:
  "appended_to (compare_outs cfg env tc) (case_id tc) st
     (snd (compare_output cfg env tc msg ot st))"
  unfolding compare_output_def compare_outs_def Let_def
  by (simp add: appended_to_def outcomes_def emit_def split: prod.splits)

lemma appended_to_trans:
  "appended_to outs1 cid st st1 \<Longrightarrow> appended_to outs2 cid st1 st2 \<Longrightarrow>
   set outs1 \<inter> set outs2 = {} \<Longrightarrow> appended_to (outs1 @ outs2) cid st st2"
  unfolding appended_to_def list_all_iff by auto

lemma after_run_appended:
  "appended_to (after_outs cfg env tc fe rc) (case_id tc) st
     (snd (after_run cfg env tc msg fe ot rc st))"
proof (cases "rc = 0 \<and> fe")
  case False
  then show ?thesis
    unfolding after_run_def after_outs_def Let_def
    by (simp add: appended_to_def outcomes_def emit_def)
next
  case True
  let ?st1 = "if WITH_VALGRIND cfg \<and> tclass tc = CHR ''v''
              then st\<lparr>L_FIXED := L_FIXED st @ [case_id tc]\<rparr> else st"
  let ?o1 = "if WITH_VALGRIND cfg \<and> tclass tc = CHR ''v'' then [Fixed] else []"
  have 1: "appended_to ?o1 (case_id tc) st ?st1"
    by (simp add: appended_to_def outcomes_def)
  have 2: "appended_to (compare_outs cfg env tc) (case_id tc) ?st1
             (snd (compare_output cfg env tc msg ot ?st1))"
    by (rule compare_output_appended)
  have 3: "set ?o1 \<inter> set (compare_outs cfg env tc) = {}"
    by (auto simp: compare_outs_def split: if_splits)
  from appended_to_trans [OF 1 2 3] True show ?thesis
    unfolding after_run_def after_outs_def Let_def by simp
qed

lemma run_tcase_unit:
  assumes "\<not> unit_gate cfg tc"
  shows "run_tcase cfg env tc st = Some (False, st)"
  using assms unfolding run_tcase_def unit_gate_def Let_def
  by (simp split: prod.splits)

lemma run_tcase_feature:
  assumes "unit_gate cfg tc" "\<not> feature_gate cfg env"
  shows \<open>run_tcase cfg env tc st = Some (False,
     emit [Result skip (msg_of env tc) True
            [if take 1 (snd (check_features cfg (output_feature env) (features_file env))) = ''!''
             then ''unwanted feature "''
                  @ tl (snd (check_features cfg (output_feature env) (features_file env)))
                  @ ''" is available''
             else ''required feature "''
                  @ snd (check_features cfg (output_feature env) (features_file env))
                  @ ''" is not available'']]
       ((emit (setup_effects env) st)
          \<lparr>L_SKIPPED_BY_FEATURES := L_SKIPPED_BY_FEATURES st @ [case_id tc]\<rparr>))\<close>
proof -
  obtain fe ot ol ofe where se: "select_expected env = (fe, ot, ol, ofe)"
    by (cases "select_expected env") auto
  obtain tmp feat where cf: "check_features cfg ofe (features_file env) = (tmp, feat)"
    by (cases "check_features cfg ofe (features_file env)") auto
  from assms se cf have g: "check_units cfg (name tc) (category tc) = True" "tmp = False"
    by (simp_all add: unit_gate_def feature_gate_def output_feature_def)
  have of: "output_feature env = ofe" by (simp add: output_feature_def se)
  show ?thesis
    unfolding run_tcase_def se cf Let_def prod.case g msg_of_def of
    by (simp add: emit_def)
qed

lemma run_tcase_language:
  assumes "unit_gate cfg tc" "feature_gate cfg env" "\<not> language_gate env"
  shows \<open>run_tcase cfg env tc st = Some (False,
     emit [Result skip (msg_of env tc) True
            [''required language parser "'' @ snd (fst (check_languages env))
             @ ''" is not available'']]
       ((emit (snd (check_languages env)) (emit (setup_effects env) st))
          \<lparr>L_SKIPPED_BY_LANGUAGES := L_SKIPPED_BY_LANGUAGES st @ [case_id tc]\<rparr>))\<close>
proof -
  obtain fe ot ol ofe where se: "select_expected env = (fe, ot, ol, ofe)"
    by (cases "select_expected env") auto
  obtain tmp feat where cf: "check_features cfg ofe (features_file env) = (tmp, feat)"
    by (cases "check_features cfg ofe (features_file env)") auto
  obtain tmp2 lang es where cl: "check_languages env = ((tmp2, lang), es)"
    by (cases "check_languages env") auto
  from assms se cf cl have g: "check_units cfg (name tc) (category tc) = True" "tmp = True"
      "tmp2 = False"
    by (simp_all add: unit_gate_def feature_gate_def language_gate_def output_feature_def)
  show ?thesis
    unfolding run_tcase_def se cf cl Let_def prod.case g msg_of_def
    by (simp add: emit_def split del: if_split)
qed

lemma run_tcase_iloop:
  assumes "unit_gate cfg tc" "feature_gate cfg env" "language_gate env" "\<not> iloop_gate cfg tc"
  shows "run_tcase cfg env tc st = Some (False,
     emit [Result skip (msg_of env tc) True [''may cause an infinite loop'']]
       ((emit (snd (check_languages env)) (emit (setup_effects env) st))
          \<lparr>L_SKIPPED_BY_ILOOP := L_SKIPPED_BY_ILOOP st @ [case_id tc]\<rparr>))"
proof -
  obtain fe ot ol ofe where se: "select_expected env = (fe, ot, ol, ofe)"
    by (cases "select_expected env") auto
  obtain tmp feat where cf: "check_features cfg ofe (features_file env) = (tmp, feat)"
    by (cases "check_features cfg ofe (features_file env)") auto
  obtain tmp2 lang es where cl: "check_languages env = ((tmp2, lang), es)"
    by (cases "check_languages env") auto
  from assms se cf cl have g: "check_units cfg (name tc) (category tc) = True" "tmp = True"
      "tmp2 = True" "(WITH_TIMEOUT cfg = 0 \<and> tclass tc = CHR ''i'') = True"
    by (simp_all add: unit_gate_def feature_gate_def language_gate_def output_feature_def
        iloop_gate_def)
  show ?thesis
    unfolding run_tcase_def se cf cl Let_def prod.case g msg_of_def
    by (simp add: emit_def split del: if_split)
qed

lemma run_tcase_args:
  assumes "unit_gate cfg tc" "feature_gate cfg env" "language_gate env" "iloop_gate cfg tc"
    "\<not> args_gate env"
  shows "run_tcase cfg env tc st = Some (False,
     emit [Result error (msg_of env tc) False [''broken args.ctags?'']]
       ((emit (snd (check_languages env)) (emit (setup_effects env) st))
          \<lparr>L_BROKEN_ARGS_CTAGS := L_BROKEN_ARGS_CTAGS st @ [case_id tc]\<rparr>))"
proof -
  obtain fe ot ol ofe where se: "select_expected env = (fe, ot, ol, ofe)"
    by (cases "select_expected env") auto
  obtain tmp feat where cf: "check_features cfg ofe (features_file env) = (tmp, feat)"
    by (cases "check_features cfg ofe (features_file env)") auto
  obtain tmp2 lang es where cl: "check_languages env = ((tmp2, lang), es)"
    by (cases "check_languages env") auto
  from assms se cf cl have g: "check_units cfg (name tc) (category tc) = True" "tmp = True"
      "tmp2 = True" "(WITH_TIMEOUT cfg = 0 \<and> tclass tc = CHR ''i'') = False"
      "(args_ctags env \<and> dry_run_status env \<noteq> 0) = True"
    by (simp_all add: unit_gate_def feature_gate_def language_gate_def output_feature_def
        iloop_gate_def args_gate_def)
  show ?thesis
    unfolding run_tcase_def se cf cl Let_def prod.case g msg_of_def
    by (simp add: emit_def split del: if_split)
qed

lemma run_tcase_none:
  "(run_tcase cfg env tc st = None) =
     (gates_pass cfg env tc \<and> subprocess_run (timeout_value cfg) (main_run env) = None)"
proof (cases "gates_pass cfg env tc")
  case True
  then show ?thesis
    by (auto simp: run_tcase_gated run_subject_def Let_def split: option.splits completed.splits)
next
  case False
  then consider "\<not> unit_gate cfg tc" | "unit_gate cfg tc" "\<not> feature_gate cfg env"
    | "unit_gate cfg tc" "feature_gate cfg env" "\<not> language_gate env"
    | "unit_gate cfg tc" "feature_gate cfg env" "language_gate env" "\<not> iloop_gate cfg tc"
    | "unit_gate cfg tc" "feature_gate cfg env" "language_gate env" "iloop_gate cfg tc"
      "\<not> args_gate env"
    by (auto simp: gates_pass_def)
  then show ?thesis
  proof cases
    case 1 with False show ?thesis by (simp add: run_tcase_unit)
  next
    case 2 with False show ?thesis by (simp add: run_tcase_feature)
  next
    case 3 with False show ?thesis by (simp add: run_tcase_language)
  next
    case 4 with False show ?thesis by (simp add: run_tcase_iloop)
  next
    case 5 with False show ?thesis by (simp add: run_tcase_args)
  qed
qed

lemma appended_to_single:
  "appended_to [SkippedFeature] cid st (st'\<lparr>L_SKIPPED_BY_FEATURES := L_SKIPPED_BY_FEATURES st @ [cid]\<rparr>)
     = appended_to [] cid st (st'\<lparr>L_SKIPPED_BY_FEATURES := L_SKIPPED_BY_FEATURES st\<rparr>)"
  "appended_to [SkippedLanguage] cid st (st'\<lparr>L_SKIPPED_BY_LANGUAGES := L_SKIPPED_BY_LANGUAGES st @ [cid]\<rparr>)
     = appended_to [] cid st (st'\<lparr>L_SKIPPED_BY_LANGUAGES := L_SKIPPED_BY_LANGUAGES st\<rparr>)"
  "appended_to [SkippedInfiniteLoopRisk] cid st (st'\<lparr>L_SKIPPED_BY_ILOOP := L_SKIPPED_BY_ILOOP st @ [cid]\<rparr>)
     = appended_to [] cid st (st'\<lparr>L_SKIPPED_BY_ILOOP := L_SKIPPED_BY_ILOOP st\<rparr>)"
  "appended_to [BrokenPrerequisite] cid st (st'\<lparr>L_BROKEN_ARGS_CTAGS := L_BROKEN_ARGS_CTAGS st @ [cid]\<rparr>)
     = appended_to [] cid st (st'\<lparr>L_BROKEN_ARGS_CTAGS := L_BROKEN_ARGS_CTAGS st\<rparr>)"
  "appended_to [TimedOut] cid st (st'\<lparr>L_FAILED_BY_TIMEED_OUT := L_FAILED_BY_TIMEED_OUT st @ [cid]\<rparr>)
     = appended_to [] cid st (st'\<lparr>L_FAILED_BY_TIMEED_OUT := L_FAILED_BY_TIMEED_OUT st\<rparr>)"
  by (simp_all add: appended_to_def outcomes_def)

lemma appended_to_same:
  "appended_to [] cid st st"
  "appended_to [] cid st (st\<lparr>L_SKIPPED_BY_FEATURES := L_SKIPPED_BY_FEATURES st\<rparr>)"
  "appended_to [] cid st (st\<lparr>L_SKIPPED_BY_LANGUAGES := L_SKIPPED_BY_LANGUAGES st\<rparr>)"
  "appended_to [] cid st (st\<lparr>L_SKIPPED_BY_ILOOP := L_SKIPPED_BY_ILOOP st\<rparr>)"
  "appended_to [] cid st (st\<lparr>L_BROKEN_ARGS_CTAGS := L_BROKEN_ARGS_CTAGS st\<rparr>)"
  "appended_to [] cid st (st\<lparr>L_FAILED_BY_TIMEED_OUT := L_FAILED_BY_TIMEED_OUT st\<rparr>)"
  by (simp_all add: appended_to_def outcomes_def)

lemma appended_emit_upd:
  "appended_to outs cid st ((emit es st')\<lparr>L_SKIPPED_BY_FEATURES := x\<rparr>) = appended_to outs cid st (st'\<lparr>L_SKIPPED_BY_FEATURES := x\<rparr>)"
  "appended_to outs cid st ((emit es st')\<lparr>L_SKIPPED_BY_LANGUAGES := x\<rparr>) = appended_to outs cid st (st'\<lparr>L_SKIPPED_BY_LANGUAGES := x\<rparr>)"
  "appended_to outs cid st ((emit es st')\<lparr>L_SKIPPED_BY_ILOOP := x\<rparr>) = appended_to outs cid st (st'\<lparr>L_SKIPPED_BY_ILOOP := x\<rparr>)"
  "appended_to outs cid st ((emit es st')\<lparr>L_BROKEN_ARGS_CTAGS := x\<rparr>) = appended_to outs cid st (st'\<lparr>L_BROKEN_ARGS_CTAGS := x\<rparr>)"
  "appended_to outs cid st ((emit es st')\<lparr>L_FAILED_BY_TIMEED_OUT := x\<rparr>) = appended_to outs cid st (st'\<lparr>L_FAILED_BY_TIMEED_OUT := x\<rparr>)"
  by (simp_all add: appended_to_def outcomes_def emit_def)

lemmas appended_simps = appended_to_single appended_emit_upd appended_to_same

lemma new_effects_emit [simp]:
  "new_effects st (emit es st') = new_effects st st' @ (if length (effects st) \<le> length (effects st') then es else drop (length (effects st) - length (effects st')) es)"
  by (simp add: new_effects_def emit_def)

lemma new_effects_upd [simp]:
  "new_effects st (st'\<lparr>L_SKIPPED_BY_FEATURES := x\<rparr>) = new_effects st st'"
  "new_effects st (st'\<lparr>L_SKIPPED_BY_LANGUAGES := x\<rparr>) = new_effects st st'"
  "new_effects st (st'\<lparr>L_SKIPPED_BY_ILOOP := x\<rparr>) = new_effects st st'"
  "new_effects st (st'\<lparr>L_BROKEN_ARGS_CTAGS := x\<rparr>) = new_effects st st'"
  "new_effects st (st'\<lparr>L_FAILED_BY_TIMEED_OUT := x\<rparr>) = new_effects st st'"
  "new_effects st st = []"
  by (simp_all add: new_effects_def)

lemma effects_emit [simp]: "effects (emit es st) = effects st @ es"
  by (simp add: emit_def)

lemma commands_append [simp]: "commands (xs @ ys) = commands xs @ commands ys"
  by (induction xs rule: commands.induct) simp_all

lemma commands_setup:
  "commands (setup_effects env) = (if args_ctags env then [Dry_run] else []) @ [Print_language]"
  by (simp add: setup_effects_def)

lemma run_tcase_returncode:
  assumes "gates_pass cfg env tc"
    "subprocess_run (timeout_value cfg) (main_run env) = Some (Returncode rc)"
  shows "run_tcase cfg env tc st =
     Some (after_run cfg env tc (msg_of env tc) (fst (select_expected env))
             (fst (snd (select_expected env))) rc
             (emit [Record_cmdline] (emit [Run (Subject (timeout_value cfg))]
                (emit (snd (check_languages env)) (emit (setup_effects env) st)))))"
  using assms by (simp add: run_tcase_gated run_subject_def Let_def)

lemma run_tcase_timeout:
  assumes "gates_pass cfg env tc"
    "subprocess_run (timeout_value cfg) (main_run env) = Some TimeoutExpired"
  shows "run_tcase cfg env tc st =
     Some (False,
       emit ([Result error (msg_of env tc) True [''TIMED OUT''], Record_cmdline] @ shrink cfg tc)
         ((emit [Run (Subject (timeout_value cfg))]
            (emit (snd (check_languages env)) (emit (setup_effects env) st)))
          \<lparr>L_FAILED_BY_TIMEED_OUT := L_FAILED_BY_TIMEED_OUT st @ [case_id tc]\<rparr>))"
  using assms by (simp add: run_tcase_gated run_subject_def Let_def emit_def)

lemma compare_output_value:
  "fst (compare_output cfg env tc msg ot st)
     = (cmp_equal env \<or> diff_status env = 0 \<or> tclass tc = CHR ''b'')"
  unfolding compare_output_def Let_def by (simp split: prod.splits)

lemma after_run_value:
  "fst (after_run cfg env tc msg fe ot rc st)
     = (if rc \<noteq> 0
        then \<not> (WITH_VALGRIND cfg \<and> rc = VALGRIND_EXIT \<and> tclass tc \<noteq> CHR ''v'')
             \<and> tclass tc = CHR ''b''
        else \<not> fe \<or> cmp_equal env \<or> diff_status env = 0 \<or> tclass tc = CHR ''b'')"
  unfolding after_run_def Let_def by (simp add: compare_output_value)

lemma appended_to_set:
  "set outs = set outs' \<Longrightarrow> appended_to outs cid st st' = appended_to outs' cid st st'"
  by (simp add: appended_to_def)

lemma run_tcase_appended:
  assumes "run_tcase cfg env tc st = Some (b, st')"
  shows "\<exists>outs. tcase_outs cfg env tc = Some outs \<and> appended_to outs (case_id tc) st st'"
proof -
  consider "\<not> unit_gate cfg tc" | "unit_gate cfg tc" "\<not> feature_gate cfg env"
    | "unit_gate cfg tc" "feature_gate cfg env" "\<not> language_gate env"
    | "unit_gate cfg tc" "feature_gate cfg env" "language_gate env" "\<not> iloop_gate cfg tc"
    | "unit_gate cfg tc" "feature_gate cfg env" "language_gate env" "iloop_gate cfg tc"
      "\<not> args_gate env"
    | "gates_pass cfg env tc"
    by (auto simp: gates_pass_def)
  then show ?thesis
  proof cases
    case 1 with assms show ?thesis
      by (auto simp: run_tcase_unit tcase_outs_def appended_simps)
  next
    case 2 with assms show ?thesis
      by (auto simp: run_tcase_feature tcase_outs_def appended_simps)
  next
    case 3 with assms show ?thesis
      by (auto simp: run_tcase_language tcase_outs_def appended_simps)
  next
    case 4 with assms show ?thesis
      by (auto simp: run_tcase_iloop tcase_outs_def appended_simps)
  next
    case 5 with assms show ?thesis
      by (auto simp: run_tcase_args tcase_outs_def appended_simps)
  next
    case 6
    then have g: "unit_gate cfg tc" "feature_gate cfg env" "language_gate env"
      "iloop_gate cfg tc" "args_gate env"
      by (simp_all add: gates_pass_def)
    show ?thesis
    proof (cases "subprocess_run (timeout_value cfg) (main_run env)")
      case None
      with 6 assms run_tcase_none [of cfg env tc st] show ?thesis by simp
    next
      case (Some c)
      show ?thesis
      proof (cases c)
        case TimeoutExpired
        with Some 6 assms g show ?thesis
          by (auto simp: run_tcase_timeout tcase_outs_def appended_simps)
      next
        case (Returncode rc)
        with Some 6 assms have "st' = snd (after_run cfg env tc (msg_of env tc)
            (fst (select_expected env)) (fst (snd (select_expected env))) rc
            (emit [Record_cmdline] (emit [Run (Subject (timeout_value cfg))]
              (emit (snd (check_languages env)) (emit (setup_effects env) st)))))"
          by (simp add: run_tcase_returncode)
        with after_run_appended [of cfg env tc "fst (select_expected env)" rc
            "emit [Record_cmdline] (emit [Run (Subject (timeout_value cfg))]
              (emit (snd (check_languages env)) (emit (setup_effects env) st)))"
            "msg_of env tc" "fst (snd (select_expected env))"]
        have "appended_to (after_outs cfg env tc (fst (select_expected env)) rc) (case_id tc) st st'"
          by simp
        with Some Returncode g show ?thesis by (simp add: tcase_outs_def)
      qed
    qed
  qed
qed

lemma after_outs_shape:
  "distinct (after_outs cfg env tc fe rc)
   \<and> length (filter (\<lambda>out. out \<noteq> Fixed) (after_outs cfg env tc fe rc)) = 1
   \<and> (Fixed \<in> set (after_outs cfg env tc fe rc) \<longrightarrow>
        Passed \<in> set (after_outs cfg env tc fe rc) \<or> FailedDiff \<in> set (after_outs cfg env tc fe rc))"
  by (auto simp: after_outs_def compare_outs_def)

lemma tcase_outs_shape:
  assumes "tcase_outs cfg env tc = Some outs"
  shows "distinct outs
   \<and> (if unit_gate cfg tc then length (filter (\<lambda>out. out \<noteq> Fixed) outs) = 1 else outs = [])
   \<and> (Fixed \<in> set outs \<longrightarrow> Passed \<in> set outs \<or> FailedDiff \<in> set outs)"
proof (cases "gates_pass cfg env tc")
  case False
  with assms show ?thesis
    by (auto simp: tcase_outs_def gates_pass_def split: if_splits)
next
  case True
  then have g: "unit_gate cfg tc" "feature_gate cfg env" "language_gate env"
      "iloop_gate cfg tc" "args_gate env"
    by (simp_all add: gates_pass_def)
  show ?thesis
  proof (cases "subprocess_run (timeout_value cfg) (main_run env)")
    case None
    with assms g show ?thesis by (simp add: tcase_outs_def)
  next
    case (Some c)
    show ?thesis
    proof (cases c)
      case TimeoutExpired
      with Some assms g show ?thesis by (auto simp: tcase_outs_def)
    next
      case (Returncode rc)
      with Some assms g have "outs = after_outs cfg env tc (fst (select_expected env)) rc"
        by (simp add: tcase_outs_def)
      with after_outs_shape [of cfg env tc "fst (select_expected env)" rc] g show ?thesis
        by simp
    qed
  qed
qed

lemma appended_toD:
  "appended_to outs cid st st' \<Longrightarrow>
   collection out st' = collection out st @ (if out \<in> set outs then [cid] else [])"
  by (cases out) (simp_all add: appended_to_def outcomes_def)

lemma outcomes_complete: "out \<in> set outcomes"
  by (cases out) (simp_all add: outcomes_def)

lemma collection_no_results [simp]: "collection out no_results = []"
  by (cases out) (simp_all add: no_results_def)

lemma collection_merge: "collection out (merge st d) = collection out st @ collection out d"
  by (cases out) (simp_all add: merge_def)

lemma classified_iff:
  assumes "run_tcase cfg env tc no_results = Some r"
  shows "\<exists>outs. classified cfg env tc = Some outs
           \<and> (\<forall>out. (out \<in> set outs) = (collection out (snd r) \<noteq> []))"
proof -
  from assms have "run_tcase cfg env tc no_results = Some (fst r, snd r)" by simp
  from run_tcase_appended [OF this] obtain outs' where
    a: "appended_to outs' (case_id tc) no_results (snd r)" by blast
  have c: "collection out (snd r) = (if out \<in> set outs' then [case_id tc] else [])" for out
    using appended_toD [OF a, of out] by simp
  have "classified cfg env tc
      = Some (filter (\<lambda>out. case_id tc \<in> set (collection out (snd r))) outcomes)"
    using assms by (simp add: classified_def)
  moreover have "(out \<in> set (filter (\<lambda>out. case_id tc \<in> set (collection out (snd r))) outcomes))
      = (collection out (snd r) \<noteq> [])" for out
    by (simp add: c outcomes_complete)
  ultimately show ?thesis by blast
qed

lemma run_all_collection:
  "run_all cfg cs st = Some st' \<Longrightarrow>
     (collection out st' \<noteq> []) =
       (collection out st \<noteq> []
        \<or> (\<exists>c \<in> set cs. \<exists>r. run_tcase cfg (fst c) (snd c) no_results = Some r
                                \<and> collection out (snd r) \<noteq> []))"
proof (induction cs arbitrary: st)
  case Nil
  then show ?case by simp
next
  case (Cons c cs)
  from Cons.prems obtain r1 where r1: "run_tcase cfg (fst c) (snd c) st = Some r1"
    and rest: "run_all cfg cs (snd r1) = Some st'"
    by (auto split: option.splits)
  from r1 run_tcase_frame [of cfg "fst c" "snd c" st]
  obtain r0 where r0: "run_tcase cfg (fst c) (snd c) no_results = Some r0"
    and m: "snd r1 = merge st (snd r0)"
    by auto
  have "collection out (snd r1) = collection out st @ collection out (snd r0)"
    by (simp add: m collection_merge)
  then have "(collection out (snd r1) \<noteq> []) =
      (collection out st \<noteq> []
       \<or> (\<exists>r. run_tcase cfg (fst c) (snd c) no_results = Some r \<and> collection out (snd r) \<noteq> []))"
    using r0 by simp
  with Cons.IH [OF rest] show ?case by (simp add: disj_assoc)
qed

lemmas gate_defs = gates_pass_def unit_gate_def feature_gate_def language_gate_def
  iloop_gate_def args_gate_def output_feature_def select_expected_def check_units_def
  check_features_def check_languages_def

section \<open>Known bugs that no longer fail\<close>

text \<open>
  C1, as the code has it. A case of class \<^verbatim>\<open>b\<close> that passes the gates, exits with 0 and
  whose filtered output compares equal to the expected output is appended to \<^verbatim>\<open>L_FIXED\<close>
  and also to \<^verbatim>\<open>L_PASSED\<close>, to no other collection, and \<^verbatim>\<open>run_tcase\<close> returns \<^verbatim>\<open>True\<close>.
\<close>

theorem C1_known_bug_success_is_fixed_and_passed:
  assumes "tclass tc = CHR ''b''" "gates_pass cfg env tc"
    "subprocess_run (timeout_value cfg) (main_run env) = Some (Returncode 0)"
    "fst (select_expected env)" "cmp_equal env"
  shows "\<exists>st'. run_tcase cfg env tc st = Some (True, st')
           \<and> appended_to [Passed, Fixed] (case_id tc) st st'"
proof -
  let ?r = "after_run cfg env tc (msg_of env tc) (fst (select_expected env))
             (fst (snd (select_expected env))) 0
             (emit [Record_cmdline] (emit [Run (Subject (timeout_value cfg))]
                (emit (snd (check_languages env)) (emit (setup_effects env) st))))"
  have run: "run_tcase cfg env tc st = Some ?r"
    using assms(2,3) by (rule run_tcase_returncode)
  have v: "fst ?r = True" using assms by (simp add: after_run_value)
  have "after_outs cfg env tc (fst (select_expected env)) 0 = [Fixed, Passed]"
    using assms by (simp add: after_outs_def compare_outs_def)
  with after_run_appended [of cfg env tc "fst (select_expected env)" 0 _ "msg_of env tc"
      "fst (snd (select_expected env))"]
  have "appended_to [Fixed, Passed] (case_id tc) st (snd ?r)"
    by (metis appended_to_start)
  then have "appended_to [Passed, Fixed] (case_id tc) st (snd ?r)"
    by (simp add: appended_to_set [of "[Passed, Fixed]" "[Fixed, Passed]"] insert_commute)
  with run v show ?thesis by (metis prod.collapse)
qed

text \<open>
  The theorem at the case \<^verbatim>\<open>ROOT/bar\<close> of class \<^verbatim>\<open>b\<close>.
\<close>

theorem C1_witness:
  "tclass (tc0 ''bar'' CHR ''b'') = CHR ''b''
   \<and> gates_pass cfg0 env0 (tc0 ''bar'' CHR ''b'')
   \<and> subprocess_run (timeout_value cfg0) (main_run env0) = Some (Returncode 0)
   \<and> fst (select_expected env0) \<and> cmp_equal env0
   \<and> (\<exists>st'. run_tcase cfg0 env0 (tc0 ''bar'' CHR ''b'') no_results = Some (True, st')
          \<and> appended_to [Passed, Fixed] (case_id (tc0 ''bar'' CHR ''b'')) no_results st')"
proof -
  have h1: "tclass (tc0 ''bar'' CHR ''b'') = CHR ''b''" by (simp add: tc0_def)
  have h2: "gates_pass cfg0 env0 (tc0 ''bar'' CHR ''b'')"
    by (simp add: gate_defs cfg0_def env0_def tc0_def)
  have h3: "subprocess_run (timeout_value cfg0) (main_run env0) = Some (Returncode 0)"
    by (simp add: timeout_value_def cfg0_def env0_def)
  have h4: "fst (select_expected env0)" by (simp add: select_expected_def env0_def)
  have h5: "cmp_equal env0" by (simp add: env0_def)
  from C1_known_bug_success_is_fixed_and_passed [OF h1 h2 h3 h4 h5, of no_results] h1 h2 h3 h4 h5
  show ?thesis by simp
qed

text \<open>
  C1 as stated fails: the same case ends up in the Passed collection as well as in the
  Fixed one.
\<close>

theorem C1_counterexample:
  "classified cfg0 env0 (tc0 ''bar'' CHR ''b'') = Some [Passed, Fixed]"
  by code_simp

section \<open>Negated feature requirements\<close>

text \<open>
  C2. A features file with the single line \<^verbatim>\<open>!json\<close>, run against a subject that does not
  advertise \<^verbatim>\<open>json\<close>: \<^verbatim>\<open>check_features\<close> still answers that the check failed, so the
  case is skipped although the unwanted feature is absent.
\<close>

theorem C2_negated_absent_feature_fails:
  "check_features cfg0 [] (Some [''!json'']) = (False, ''!json'')"
  by (simp add: check_features_def cfg0_def)

section \<open>How many collections a case reaches\<close>

text \<open>
  C3, as the code has it. When \<^verbatim>\<open>run_tcase\<close> returns, the case was appended to no
  collection if the unit filter rejected it, and otherwise to exactly one of the
  collections other than \<^verbatim>\<open>L_FIXED\<close>; besides, it may have been appended to \<^verbatim>\<open>L_FIXED\<close>,
  and then it is also in \<^verbatim>\<open>L_PASSED\<close> or in \<^verbatim>\<open>L_FAILED_BY_DIFF\<close>. No collection receives
  the case twice and no collection loses an entry.
\<close>

theorem C3_one_collection_besides_fixed:
  assumes "run_tcase cfg env tc st = Some (b, st')"
  shows "\<exists>outs. appended_to outs (case_id tc) st st' \<and> distinct outs
     \<and> (if unit_gate cfg tc then length (filter (\<lambda>out. out \<noteq> Fixed) outs) = 1 else outs = [])
     \<and> (Fixed \<in> set outs \<longrightarrow> Passed \<in> set outs \<or> FailedDiff \<in> set outs)"
  using run_tcase_appended [OF assms] tcase_outs_shape by blast

text \<open>
  The theorem at the case \<^verbatim>\<open>ROOT/foo\<close> of class \<^verbatim>\<open>i\<close>, selected by \<^verbatim>\<open>--units ROOT/foo\<close>.
\<close>

theorem C3_witness:
  "\<exists>st'. run_tcase (cfg0\<lparr>UNITS := [''ROOT/foo'']\<rparr>) env0 (tc0 ''foo'' CHR ''i'') no_results
            = Some (False, st')
     \<and> (\<exists>outs. appended_to outs (case_id (tc0 ''foo'' CHR ''i'')) no_results st' \<and> distinct outs
         \<and> (if unit_gate (cfg0\<lparr>UNITS := [''ROOT/foo'']\<rparr>) (tc0 ''foo'' CHR ''i'')
             then length (filter (\<lambda>out. out \<noteq> Fixed) outs) = 1 else outs = [])
         \<and> (Fixed \<in> set outs \<longrightarrow> Passed \<in> set outs \<or> FailedDiff \<in> set outs))"
proof -
  have "fst (the (run_tcase (cfg0\<lparr>UNITS := [''ROOT/foo'']\<rparr>) env0 (tc0 ''foo'' CHR ''i'') no_results)) = False"
    "run_tcase (cfg0\<lparr>UNITS := [''ROOT/foo'']\<rparr>) env0 (tc0 ''foo'' CHR ''i'') no_results \<noteq> None"
    by code_simp+
  then obtain st' where h: "run_tcase (cfg0\<lparr>UNITS := [''ROOT/foo'']\<rparr>) env0 (tc0 ''foo'' CHR ''i'') no_results
            = Some (False, st')"
    by (cases "run_tcase (cfg0\<lparr>UNITS := [''ROOT/foo'']\<rparr>) env0 (tc0 ''foo'' CHR ''i'') no_results") auto
  from C3_one_collection_besides_fixed [OF h] h show ?thesis by blast
qed

text \<open>
  C3 as stated fails in both directions: under valgrind a case of class \<^verbatim>\<open>v\<close> that exits
  with 0 and whose output differs is in two collections, and a case that the unit
  filter rejects is in none.
\<close>

theorem C3_counterexample:
  "classified (cfg0\<lparr>WITH_VALGRIND := True\<rparr>) (env0\<lparr>cmp_equal := False, diff_status := 1\<rparr>)
     (tc0 ''leak'' CHR ''v'') = Some [Fixed, FailedDiff]
   \<and> classified (cfg0\<lparr>UNITS := [''parser-c.r/other'']\<rparr>) env0 (tc0 ''foo'' CHR ''d'') = Some []"
  by code_simp

section \<open>The valgrind exit code\<close>

text \<open>
  C4, as the code has it. With \<^verbatim>\<open>WITH_VALGRIND\<close> set, a case that is run, exits with 58
  and is not of class \<^verbatim>\<open>v\<close> is appended to \<^verbatim>\<open>L_VALGRIND\<close> and to nothing else, also when
  its class is \<^verbatim>\<open>b\<close>: the test comes before the handling of other non-zero exit codes.
\<close>

theorem C4_valgrind_sentinel:
  assumes "WITH_VALGRIND cfg" "gates_pass cfg env tc"
    "subprocess_run (timeout_value cfg) (main_run env) = Some (Returncode VALGRIND_EXIT)"
    "tclass tc \<noteq> CHR ''v''"
  shows "VALGRIND_EXIT = 58
     \<and> (\<exists>st'. run_tcase cfg env tc st = Some (False, st')
           \<and> appended_to [ValgrindError] (case_id tc) st st')"
proof -
  let ?r = "after_run cfg env tc (msg_of env tc) (fst (select_expected env))
             (fst (snd (select_expected env))) VALGRIND_EXIT
             (emit [Record_cmdline] (emit [Run (Subject (timeout_value cfg))]
                (emit (snd (check_languages env)) (emit (setup_effects env) st))))"
  have run: "run_tcase cfg env tc st = Some ?r"
    using assms(2,3) by (rule run_tcase_returncode)
  have v: "fst ?r = False" using assms by (simp add: after_run_value VALGRIND_EXIT_def)
  have "after_outs cfg env tc (fst (select_expected env)) VALGRIND_EXIT = [ValgrindError]"
    using assms by (simp add: after_outs_def VALGRIND_EXIT_def)
  with after_run_appended [of cfg env tc "fst (select_expected env)" VALGRIND_EXIT _
      "msg_of env tc" "fst (snd (select_expected env))"]
  have "appended_to [ValgrindError] (case_id tc) st (snd ?r)"
    by (metis appended_to_start)
  with run v show ?thesis by (metis VALGRIND_EXIT_def prod.collapse)
qed

text \<open>
  The theorem at a case of class \<^verbatim>\<open>b\<close> that exits with 58 under valgrind.
\<close>

theorem C4_witness:
  "WITH_VALGRIND (cfg0\<lparr>WITH_VALGRIND := True\<rparr>)
   \<and> gates_pass (cfg0\<lparr>WITH_VALGRIND := True\<rparr>) (env0\<lparr>main_run := Exits 1 58\<rparr>) (tc0 ''bar'' CHR ''b'')
   \<and> subprocess_run (timeout_value (cfg0\<lparr>WITH_VALGRIND := True\<rparr>))
        (main_run (env0\<lparr>main_run := Exits 1 58\<rparr>)) = Some (Returncode VALGRIND_EXIT)
   \<and> tclass (tc0 ''bar'' CHR ''b'') \<noteq> CHR ''v''
   \<and> VALGRIND_EXIT = 58
   \<and> (\<exists>st'. run_tcase (cfg0\<lparr>WITH_VALGRIND := True\<rparr>) (env0\<lparr>main_run := Exits 1 58\<rparr>)
               (tc0 ''bar'' CHR ''b'') no_results = Some (False, st')
          \<and> appended_to [ValgrindError] (case_id (tc0 ''bar'' CHR ''b'')) no_results st')"
proof -
  have h1: "WITH_VALGRIND (cfg0\<lparr>WITH_VALGRIND := True\<rparr>)" by simp
  have h2: "gates_pass (cfg0\<lparr>WITH_VALGRIND := True\<rparr>) (env0\<lparr>main_run := Exits 1 58\<rparr>)
      (tc0 ''bar'' CHR ''b'')"
    by (simp add: gate_defs cfg0_def env0_def tc0_def)
  have h3: "subprocess_run (timeout_value (cfg0\<lparr>WITH_VALGRIND := True\<rparr>))
        (main_run (env0\<lparr>main_run := Exits 1 58\<rparr>)) = Some (Returncode VALGRIND_EXIT)"
    by (simp add: timeout_value_def cfg0_def VALGRIND_EXIT_def)
  have h4: "tclass (tc0 ''bar'' CHR ''b'') \<noteq> CHR ''v''" by (simp add: tc0_def)
  from C4_valgrind_sentinel [OF h1 h2 h3 h4, of no_results] h1 h2 h3 h4
  show ?thesis by blast
qed

text \<open>
  C4 as stated fails: without \<^verbatim>\<open>WITH_VALGRIND\<close> a case of class \<^verbatim>\<open>d\<close> that exits with 58
  is a failure by exit status.
\<close>

theorem C4_counterexample:
  "classified cfg0 (env0\<lparr>main_run := Exits 1 58\<rparr>) (tc0 ''qux'' CHR ''d'') = Some [FailedStatus]"
  by code_simp

section \<open>The order of the gates\<close>

text \<open>
  C5. The gates are decided in the order unit filter, features, languages, infinite
  loop without timeout, broken \<^verbatim>\<open>args.ctags\<close>; the first one that fails makes \<^verbatim>\<open>run_tcase\<close>
  return \<^verbatim>\<open>False\<close> with the case in the collection of that gate alone (in none for the
  unit filter), whatever the later gates would say. The commands run up to there are
  listed: the command under test is not among them, and the languages are not asked
  for when the feature gate fails.
\<close>

theorem C5_gating_order:
  "(\<not> unit_gate cfg tc \<longrightarrow> run_tcase cfg env tc st = Some (False, st))
   \<and> (unit_gate cfg tc \<and> \<not> feature_gate cfg env \<longrightarrow>
        (\<exists>st'. run_tcase cfg env tc st = Some (False, st')
           \<and> appended_to [SkippedFeature] (case_id tc) st st'
           \<and> commands (new_effects st st')
               = (if args_ctags env then [Dry_run] else []) @ [Print_language]))
   \<and> (unit_gate cfg tc \<and> feature_gate cfg env \<and> \<not> language_gate env \<longrightarrow>
        (\<exists>st'. run_tcase cfg env tc st = Some (False, st')
           \<and> appended_to [SkippedLanguage] (case_id tc) st st'
           \<and> commands (new_effects st st')
               = (if args_ctags env then [Dry_run] else []) @ [Print_language, List_languages]))
   \<and> (unit_gate cfg tc \<and> feature_gate cfg env \<and> language_gate env \<and> \<not> iloop_gate cfg tc \<longrightarrow>
        (\<exists>st'. run_tcase cfg env tc st = Some (False, st')
           \<and> appended_to [SkippedInfiniteLoopRisk] (case_id tc) st st'
           \<and> commands (new_effects st st')
               = (if args_ctags env then [Dry_run] else []) @ [Print_language]
                 @ commands (snd (check_languages env))))
   \<and> (unit_gate cfg tc \<and> feature_gate cfg env \<and> language_gate env \<and> iloop_gate cfg tc
        \<and> \<not> args_gate env \<longrightarrow>
        (\<exists>st'. run_tcase cfg env tc st = Some (False, st')
           \<and> appended_to [BrokenPrerequisite] (case_id tc) st st'
           \<and> commands (new_effects st st')
               = [Dry_run, Print_language] @ commands (snd (check_languages env))))"
proof (intro conjI impI)
  assume "\<not> unit_gate cfg tc"
  then show "run_tcase cfg env tc st = Some (False, st)" by (rule run_tcase_unit)
next
  assume "unit_gate cfg tc \<and> \<not> feature_gate cfg env"
  then show "\<exists>st'. run_tcase cfg env tc st = Some (False, st')
           \<and> appended_to [SkippedFeature] (case_id tc) st st'
           \<and> commands (new_effects st st')
               = (if args_ctags env then [Dry_run] else []) @ [Print_language]"
    by (simp add: run_tcase_feature appended_simps commands_setup)
next
  assume a: "unit_gate cfg tc \<and> feature_gate cfg env \<and> \<not> language_gate env"
  then have "languages_file env \<noteq> None"
    by (auto simp: language_gate_def check_languages_def split: option.splits)
  then have "commands (snd (check_languages env)) = [List_languages]"
    by (auto simp: check_languages_def)
  with a show "\<exists>st'. run_tcase cfg env tc st = Some (False, st')
           \<and> appended_to [SkippedLanguage] (case_id tc) st st'
           \<and> commands (new_effects st st')
               = (if args_ctags env then [Dry_run] else []) @ [Print_language, List_languages]"
    by (simp add: run_tcase_language appended_simps commands_setup)
next
  assume "unit_gate cfg tc \<and> feature_gate cfg env \<and> language_gate env \<and> \<not> iloop_gate cfg tc"
  then show "\<exists>st'. run_tcase cfg env tc st = Some (False, st')
           \<and> appended_to [SkippedInfiniteLoopRisk] (case_id tc) st st'
           \<and> commands (new_effects st st')
               = (if args_ctags env then [Dry_run] else []) @ [Print_language]
                 @ commands (snd (check_languages env))"
    by (simp add: run_tcase_iloop appended_simps commands_setup)
next
  assume a: "unit_gate cfg tc \<and> feature_gate cfg env \<and> language_gate env \<and> iloop_gate cfg tc
        \<and> \<not> args_gate env"
  then have "args_ctags env" by (simp add: args_gate_def)
  with a show "\<exists>st'. run_tcase cfg env tc st = Some (False, st')
           \<and> appended_to [BrokenPrerequisite] (case_id tc) st st'
           \<and> commands (new_effects st st')
               = [Dry_run, Print_language] @ commands (snd (check_languages env))"
    by (simp add: run_tcase_args appended_simps commands_setup)
qed

text \<open>
  The theorem at five cases, one for each gate; in each of them every later gate
  would fail too.
\<close>

theorem C5_witness:
  "(\<not> unit_gate (cfg0\<lparr>UNITS := [''parser-c.r/foo'']\<rparr>) (tc0 ''foo'' CHR ''i'')
      \<and> run_tcase (cfg0\<lparr>UNITS := [''parser-c.r/foo'']\<rparr>)
           (env0\<lparr>features_file := Some [''json''], languages_file := Some [''Rust''],
                 args_ctags := True, dry_run_status := 1\<rparr>)
           (tc0 ''foo'' CHR ''i'') no_results = Some (False, no_results))
   \<and> (unit_gate cfg0 (tc0 ''foo'' CHR ''i'')
      \<and> \<not> feature_gate cfg0 (env0\<lparr>features_file := Some [''json''],
             languages_file := Some [''Rust''], args_ctags := True, dry_run_status := 1\<rparr>)
      \<and> (\<exists>st'. run_tcase cfg0
                  (env0\<lparr>features_file := Some [''json''], languages_file := Some [''Rust''],
                        args_ctags := True, dry_run_status := 1\<rparr>)
                  (tc0 ''foo'' CHR ''i'') no_results = Some (False, st')
            \<and> appended_to [SkippedFeature] (case_id (tc0 ''foo'' CHR ''i'')) no_results st'
            \<and> commands (new_effects no_results st') = [Dry_run, Print_language]))
   \<and> (feature_gate cfg0 (env0\<lparr>languages_file := Some [''Rust''], args_ctags := True,
             dry_run_status := 1\<rparr>)
      \<and> \<not> language_gate (env0\<lparr>languages_file := Some [''Rust''], args_ctags := True,
             dry_run_status := 1\<rparr>)
      \<and> (\<exists>st'. run_tcase cfg0
                  (env0\<lparr>languages_file := Some [''Rust''], args_ctags := True,
                        dry_run_status := 1\<rparr>)
                  (tc0 ''foo'' CHR ''i'') no_results = Some (False, st')
            \<and> appended_to [SkippedLanguage] (case_id (tc0 ''foo'' CHR ''i'')) no_results st'
            \<and> commands (new_effects no_results st')
                = [Dry_run, Print_language, List_languages]))
   \<and> (language_gate (env0\<lparr>args_ctags := True, dry_run_status := 1\<rparr>)
      \<and> \<not> iloop_gate cfg0 (tc0 ''foo'' CHR ''i'')
      \<and> (\<exists>st'. run_tcase cfg0 (env0\<lparr>args_ctags := True, dry_run_status := 1\<rparr>)
                  (tc0 ''foo'' CHR ''i'') no_results = Some (False, st')
            \<and> appended_to [SkippedInfiniteLoopRisk] (case_id (tc0 ''foo'' CHR ''i''))
                 no_results st'
            \<and> commands (new_effects no_results st') = [Dry_run, Print_language]))
   \<and> (iloop_gate cfg0 (tc0 ''foo'' CHR ''d'')
      \<and> \<not> args_gate (env0\<lparr>args_ctags := True, dry_run_status := 1\<rparr>)
      \<and> (\<exists>st'. run_tcase cfg0 (env0\<lparr>args_ctags := True, dry_run_status := 1\<rparr>)
                  (tc0 ''foo'' CHR ''d'') no_results = Some (False, st')
            \<and> appended_to [BrokenPrerequisite] (case_id (tc0 ''foo'' CHR ''d'')) no_results st'
            \<and> commands (new_effects no_results st') = [Dry_run, Print_language]))"
proof -
  let ?envF = "env0\<lparr>features_file := Some [''json''], languages_file := Some [''Rust''],
                 args_ctags := True, dry_run_status := 1\<rparr>"
  let ?envL = "env0\<lparr>languages_file := Some [''Rust''], args_ctags := True, dry_run_status := 1\<rparr>"
  let ?envA = "env0\<lparr>args_ctags := True, dry_run_status := 1\<rparr>"
  have u: "\<not> unit_gate (cfg0\<lparr>UNITS := [''parser-c.r/foo'']\<rparr>) (tc0 ''foo'' CHR ''i'')"
    by code_simp
  have ui: "unit_gate cfg0 (tc0 ''foo'' CHR ''i'')" and ud: "unit_gate cfg0 (tc0 ''foo'' CHR ''d'')"
    by (simp_all add: gate_defs cfg0_def)
  have f: "\<not> feature_gate cfg0 ?envF" "feature_gate cfg0 ?envL" "feature_gate cfg0 ?envA"
    by (simp_all add: gate_defs cfg0_def env0_def)
  have l: "\<not> language_gate ?envL" "language_gate ?envA"
    by (simp_all add: gate_defs env0_def)
  have i: "\<not> iloop_gate cfg0 (tc0 ''foo'' CHR ''i'')" "iloop_gate cfg0 (tc0 ''foo'' CHR ''d'')"
    by (simp_all add: gate_defs cfg0_def tc0_def)
  have a: "\<not> args_gate ?envA" by (simp add: gate_defs env0_def)
  have c: "commands (snd (check_languages ?envA)) = []" "args_ctags ?envF" "args_ctags ?envL"
    "args_ctags ?envA"
    by (simp_all add: check_languages_def env0_def)
  from C5_gating_order [of "cfg0\<lparr>UNITS := [''parser-c.r/foo'']\<rparr>" "tc0 ''foo'' CHR ''i''" ?envF
      no_results] u
  have 1: "run_tcase (cfg0\<lparr>UNITS := [''parser-c.r/foo'']\<rparr>) ?envF (tc0 ''foo'' CHR ''i'')
      no_results = Some (False, no_results)" by blast
  from C5_gating_order [of cfg0 "tc0 ''foo'' CHR ''i''" ?envF no_results] ui f c
  have 2: "\<exists>st'. run_tcase cfg0 ?envF (tc0 ''foo'' CHR ''i'') no_results = Some (False, st')
            \<and> appended_to [SkippedFeature] (case_id (tc0 ''foo'' CHR ''i'')) no_results st'
            \<and> commands (new_effects no_results st') = [Dry_run, Print_language]" by simp
  from C5_gating_order [of cfg0 "tc0 ''foo'' CHR ''i''" ?envL no_results] ui f l c
  have 3: "\<exists>st'. run_tcase cfg0 ?envL (tc0 ''foo'' CHR ''i'') no_results = Some (False, st')
            \<and> appended_to [SkippedLanguage] (case_id (tc0 ''foo'' CHR ''i'')) no_results st'
            \<and> commands (new_effects no_results st') = [Dry_run, Print_language, List_languages]"
    by simp
  from C5_gating_order [of cfg0 "tc0 ''foo'' CHR ''i''" ?envA no_results] ui f l i c
  have 4: "\<exists>st'. run_tcase cfg0 ?envA (tc0 ''foo'' CHR ''i'') no_results = Some (False, st')
            \<and> appended_to [SkippedInfiniteLoopRisk] (case_id (tc0 ''foo'' CHR ''i''))
                 no_results st'
            \<and> commands (new_effects no_results st') = [Dry_run, Print_language]" by simp
  from C5_gating_order [of cfg0 "tc0 ''foo'' CHR ''d''" ?envA no_results] ud f l i a c
  have 5: "\<exists>st'. run_tcase cfg0 ?envA (tc0 ''foo'' CHR ''d'') no_results = Some (False, st')
            \<and> appended_to [BrokenPrerequisite] (case_id (tc0 ''foo'' CHR ''d'')) no_results st'
            \<and> commands (new_effects no_results st') = [Dry_run, Print_language]" by simp
  from u ui f l i a 1 2 3 4 5 show ?thesis by blast
qed

section \<open>Timeouts\<close>

text \<open>
  C6, as the code has it. A case that passes the gates and whose command is still running
  at the deadline is appended to \<^verbatim>\<open>L_FAILED_BY_TIMEED_OUT\<close> alone and \<^verbatim>\<open>run_tcase\<close> returns
  \<^verbatim>\<open>False\<close>. Right after the run of the command come the result line \<^verbatim>\<open>TIMED OUT\<close>, the
  record of the command line and the shrinking, and nothing else: no exit code is
  looked at or recorded, no filter and no diff is run.
\<close>

theorem C6_timed_out:
  assumes "gates_pass cfg env tc"
    "subprocess_run (timeout_value cfg) (main_run env) = Some TimeoutExpired"
  shows "\<exists>st'. run_tcase cfg env tc st = Some (False, st')
     \<and> appended_to [TimedOut] (case_id tc) st st'
     \<and> new_effects st st' =
         setup_effects env @ snd (check_languages env)
         @ [Run (Subject (timeout_value cfg)),
            Result error (msg_of env tc) True [''TIMED OUT''], Record_cmdline]
         @ shrink cfg tc"
  using assms by (simp add: run_tcase_timeout appended_simps)

text \<open>
  The theorem at a case whose command loops, with a timeout of 5 seconds.
\<close>

theorem C6_witness:
  "gates_pass (cfg0\<lparr>WITH_TIMEOUT := 5\<rparr>) (env0\<lparr>main_run := Loops\<rparr>) (tc0 ''quux'' CHR ''d'')
   \<and> subprocess_run (timeout_value (cfg0\<lparr>WITH_TIMEOUT := 5\<rparr>)) (main_run (env0\<lparr>main_run := Loops\<rparr>))
       = Some TimeoutExpired
   \<and> (\<exists>st'. run_tcase (cfg0\<lparr>WITH_TIMEOUT := 5\<rparr>) (env0\<lparr>main_run := Loops\<rparr>)
               (tc0 ''quux'' CHR ''d'') no_results = Some (False, st')
        \<and> appended_to [TimedOut] (case_id (tc0 ''quux'' CHR ''d'')) no_results st'
        \<and> new_effects no_results st' =
            setup_effects (env0\<lparr>main_run := Loops\<rparr>) @ snd (check_languages (env0\<lparr>main_run := Loops\<rparr>))
            @ [Run (Subject (timeout_value (cfg0\<lparr>WITH_TIMEOUT := 5\<rparr>))),
               Result error (msg_of (env0\<lparr>main_run := Loops\<rparr>) (tc0 ''quux'' CHR ''d'')) True
                 [''TIMED OUT''], Record_cmdline]
            @ shrink (cfg0\<lparr>WITH_TIMEOUT := 5\<rparr>) (tc0 ''quux'' CHR ''d''))"
proof -
  have h1: "gates_pass (cfg0\<lparr>WITH_TIMEOUT := 5\<rparr>) (env0\<lparr>main_run := Loops\<rparr>) (tc0 ''quux'' CHR ''d'')"
    by (simp add: gate_defs cfg0_def env0_def tc0_def)
  have h2: "subprocess_run (timeout_value (cfg0\<lparr>WITH_TIMEOUT := 5\<rparr>))
       (main_run (env0\<lparr>main_run := Loops\<rparr>)) = Some TimeoutExpired"
    by (simp add: timeout_value_def cfg0_def)
  from C6_timed_out [OF h1 h2, of no_results] h1 h2 show ?thesis by simp
qed

text \<open>
  C6 as stated fails in its last part: for a command that needs 7 seconds under a
  timeout of 5, \<^verbatim>\<open>subprocess.run\<close> raises \<^verbatim>\<open>TimeoutExpired\<close>, which carries no exit code, and all
  that \<^verbatim>\<open>run_tcase\<close> records is the text \<^verbatim>\<open>TIMED OUT\<close>; \<^verbatim>\<open>_TIMEOUT_EXIT\<close> is used
  nowhere.
\<close>

theorem C6_counterexample:
  "subprocess_run (timeout_value (cfg0\<lparr>WITH_TIMEOUT := 5\<rparr>)) (Exits 7 0) = Some TimeoutExpired
   \<and> trace (cfg0\<lparr>WITH_TIMEOUT := 5\<rparr>) (env0\<lparr>main_run := Exits 7 0\<rparr>) (tc0 ''quux'' CHR ''d'')
     = Some [Run Print_language, Clean_tcase, Run (Subject (Some 5)),
             Result error (msg_of env0 (tc0 ''quux'' CHR ''d'')) True [''TIMED OUT''],
             Record_cmdline]"
  by code_simp

section \<open>Cases that may loop\<close>

text \<open>
  C7, as the code has it. Without a timeout, a case of class \<^verbatim>\<open>i\<close> that passes the unit
  filter, the feature gate and the language gate is appended to \<^verbatim>\<open>L_SKIPPED_BY_ILOOP\<close>
  alone and \<^verbatim>\<open>run_tcase\<close> returns \<^verbatim>\<open>False\<close>, whatever the command under test would do
  (\<open>beh\<close>), also if it would never return. The subject is run for the dry run of
  \<^verbatim>\<open>args.ctags\<close>, for the language probe and for the list of languages, and not on the
  input to produce tags.
\<close>

theorem C7_iloop_skipped_without_timeout:
  assumes "tclass tc = CHR ''i''" "WITH_TIMEOUT cfg = 0"
    "unit_gate cfg tc" "feature_gate cfg env" "language_gate env"
  shows "\<exists>st'. run_tcase cfg (env\<lparr>main_run := beh\<rparr>) tc st = Some (False, st')
     \<and> appended_to [SkippedInfiniteLoopRisk] (case_id tc) st st'
     \<and> commands (new_effects st st')
         = (if args_ctags env then [Dry_run] else []) @ [Print_language]
           @ commands (snd (check_languages env))"
proof -
  let ?env = "env\<lparr>main_run := beh\<rparr>"
  have e: "check_languages ?env = check_languages env" "setup_effects ?env = setup_effects env"
    "select_expected ?env = select_expected env"
    by (simp_all add: check_languages_def setup_effects_def select_expected_def
        split: option.splits)
  have g: "feature_gate cfg ?env" "language_gate ?env" "\<not> iloop_gate cfg tc"
    using assms
    by (simp_all add: feature_gate_def language_gate_def iloop_gate_def output_feature_def e)
  show ?thesis
    using assms(3) g
    by (simp add: run_tcase_iloop appended_simps commands_setup e)
qed

text \<open>
  The theorem at a case whose command would loop for ever.
\<close>

theorem C7_witness:
  "tclass (tc0 ''baz'' CHR ''i'') = CHR ''i'' \<and> WITH_TIMEOUT cfg0 = 0
   \<and> unit_gate cfg0 (tc0 ''baz'' CHR ''i'') \<and> feature_gate cfg0 env0 \<and> language_gate env0
   \<and> (\<exists>st'. run_tcase cfg0 (env0\<lparr>main_run := Loops\<rparr>) (tc0 ''baz'' CHR ''i'') no_results
               = Some (False, st')
        \<and> appended_to [SkippedInfiniteLoopRisk] (case_id (tc0 ''baz'' CHR ''i'')) no_results st'
        \<and> commands (new_effects no_results st')
            = (if args_ctags env0 then [Dry_run] else []) @ [Print_language]
              @ commands (snd (check_languages env0)))"
proof -
  have h1: "tclass (tc0 ''baz'' CHR ''i'') = CHR ''i''" by (simp add: tc0_def)
  have h2: "WITH_TIMEOUT cfg0 = 0" by (simp add: cfg0_def)
  have h3: "unit_gate cfg0 (tc0 ''baz'' CHR ''i'')" by (simp add: gate_defs cfg0_def)
  have h4: "feature_gate cfg0 env0" by (simp add: gate_defs cfg0_def env0_def)
  have h5: "language_gate env0" by (simp add: gate_defs env0_def)
  from C7_iloop_skipped_without_timeout [OF h1 h2 h3 h4 h5, of Loops no_results] h1 h2 h3 h4 h5
  show ?thesis by simp
qed

text \<open>
  C7 as stated fails: a case of class \<^verbatim>\<open>i\<close> whose features file asks for a missing
  feature is skipped for the feature, not for the risk of a loop; and for a case skipped
  for that risk the subject was run once, for the language probe.
\<close>

theorem C7_counterexample:
  "classified cfg0 (env0\<lparr>features_file := Some [''json'']\<rparr>) (tc0 ''baz'' CHR ''i'')
     = Some [SkippedFeature]
   \<and> invoked cfg0 env0 (tc0 ''baz'' CHR ''i'') = Some [Print_language]"
  by code_simp

section \<open>The exit status of a run\<close>

text \<open>
  When \<^verbatim>\<open>action_run\<close> returns, it returns 1 exactly when some case of the run is in one
  of the collections for failures by status, failures by diff, timeouts and broken
  \<^verbatim>\<open>args.ctags\<close>, and 0 otherwise.
\<close>

lemma action_run_status:
  assumes "action_run cfg cases = Some status"
  shows "(status = 1 \<longleftrightarrow>
           (\<exists>c \<in> set cases. \<exists>outs. classified cfg (fst c) (snd c) = Some outs
              \<and> (FailedStatus \<in> set outs \<or> FailedDiff \<in> set outs
                  \<or> TimedOut \<in> set outs \<or> BrokenPrerequisite \<in> set outs)))
         \<and> (status \<noteq> 1 \<longrightarrow> status = 0)"
proof -
  from assms obtain st' where run: "run_all cfg cases no_results = Some st'"
    and status: "status = exit_status st'"
    by (auto simp: action_run_def)
  have col: "(collection out st' \<noteq> []) =
      (\<exists>c \<in> set cases. \<exists>outs. classified cfg (fst c) (snd c) = Some outs \<and> out \<in> set outs)"
    for out
  proof -
    have "(collection out st' \<noteq> []) =
      (\<exists>c \<in> set cases. \<exists>r. run_tcase cfg (fst c) (snd c) no_results = Some r
                                \<and> collection out (snd r) \<noteq> [])"
      using run_all_collection [OF run, of out] by simp
    also have "\<dots> = (\<exists>c \<in> set cases. \<exists>outs. classified cfg (fst c) (snd c) = Some outs
                        \<and> out \<in> set outs)"
    proof (intro bex_cong refl)
      fix c
      show "(\<exists>r. run_tcase cfg (fst c) (snd c) no_results = Some r \<and> collection out (snd r) \<noteq> [])
          = (\<exists>outs. classified cfg (fst c) (snd c) = Some outs \<and> out \<in> set outs)"
      proof (cases "run_tcase cfg (fst c) (snd c) no_results")
        case None
        then show ?thesis by (simp add: classified_def)
      next
        case (Some r)
        from classified_iff [OF Some] obtain outs where
          o: "classified cfg (fst c) (snd c) = Some outs"
             "(out \<in> set outs) = (collection out (snd r) \<noteq> [])" by blast
        with Some show ?thesis by simp
      qed
    qed
    finally show ?thesis .
  qed
  have "(status = 1) = (collection FailedStatus st' \<noteq> [] \<or> collection FailedDiff st' \<noteq> []
      \<or> collection TimedOut st' \<noteq> [] \<or> collection BrokenPrerequisite st' \<noteq> [])"
    by (simp add: status exit_status_def)
  also have "\<dots> = (\<exists>c \<in> set cases. \<exists>outs. classified cfg (fst c) (snd c) = Some outs
              \<and> (FailedStatus \<in> set outs \<or> FailedDiff \<in> set outs
                  \<or> TimedOut \<in> set outs \<or> BrokenPrerequisite \<in> set outs))"
    unfolding col by (rule iffI; (elim disjE bexE exE conjE)?; blast)
  finally have 1: "(status = 1) = (\<exists>c \<in> set cases. \<exists>outs. classified cfg (fst c) (snd c) = Some outs
              \<and> (FailedStatus \<in> set outs \<or> FailedDiff \<in> set outs
                  \<or> TimedOut \<in> set outs \<or> BrokenPrerequisite \<in> set outs))" .
  have 2: "status \<noteq> 1 \<longrightarrow> status = 0" by (simp add: status exit_status_def)
  from 1 2 show ?thesis by simp
qed

text \<open>
  C9. A run under valgrind of the single case \<^verbatim>\<open>leak.d\<close>, whose command exits with the
  reserved status 58. \<^verbatim>\<open>run_tcase\<close> reports the case as failed, with the result line
  \<^verbatim>\<open>valgrind-error\<close>, and returns \<^verbatim>\<open>False\<close>, as it does for a failure by status, by
  diff or by timeout; the case is in \<^verbatim>\<open>L_VALGRIND\<close> only, it neither passed nor is a
  known bug, a skip or a fix. Yet \<^verbatim>\<open>action_run\<close> returns 0, not 1: its final test leaves
  \<^verbatim>\<open>L_VALGRIND\<close> out. The same case run without valgrind is a failure by status, and
  the run returns 1.
\<close>

theorem C9_valgrind_error_exits_0:
  "map_option fst (run_tcase (cfg0\<lparr>WITH_VALGRIND := True\<rparr>) (env0\<lparr>main_run := Exits 1 58\<rparr>)
       (tc0 ''leak'' CHR ''d'') no_results) = Some False
   \<and> trace (cfg0\<lparr>WITH_VALGRIND := True\<rparr>) (env0\<lparr>main_run := Exits 1 58\<rparr>)
       (tc0 ''leak'' CHR ''d'')
       = Some [Run Print_language, Clean_tcase, Run (Subject None), Record_cmdline,
               Result error (msg_of env0 (tc0 ''leak'' CHR ''d'')) True [''valgrind-error''],
               Record_cmdline]
   \<and> classified (cfg0\<lparr>WITH_VALGRIND := True\<rparr>) (env0\<lparr>main_run := Exits 1 58\<rparr>)
       (tc0 ''leak'' CHR ''d'') = Some [ValgrindError]
   \<and> action_run (cfg0\<lparr>WITH_VALGRIND := True\<rparr>)
       [(env0\<lparr>main_run := Exits 1 58\<rparr>, tc0 ''leak'' CHR ''d'')] = Some 0
   \<and> classified cfg0 (env0\<lparr>main_run := Exits 1 58\<rparr>) (tc0 ''leak'' CHR ''d'')
       = Some [FailedStatus]
   \<and> action_run cfg0 [(env0\<lparr>main_run := Exits 1 58\<rparr>, tc0 ''leak'' CHR ''d'')] = Some 1"
  by code_simp

section \<open>The filters, pattern by pattern\<close>

lemma subx_done: "count \<noteq> 0 \<Longrightarrow> count \<le> n \<Longrightarrow> subx r tmpl count n b a s = s"
  by (subst subx.simps) simp

lemma re_sub_once: "re_sub r tmpl l (Suc 0) = first_match_only r tmpl l"
  unfolding re_sub_def first_match_only_def
  by (subst subx.simps) (simp add: subx_done split: option.splits)

lemma matches_Lit:
  "matches (Lit p) (c, b, s) =
     (if take (length p) s = p then [(c, b \<and> p = [], drop (length p) s)] else [])"
proof (induction p arbitrary: b s)
  case Nil
  then show ?case by simp
next
  case (Cons a p)
  show ?case
  proof (cases s)
    case Nil
    then show ?thesis by (simp add: Chr_def)
  next
    case (Cons x xs)
    with Cons.IH show ?thesis by (auto simp: Chr_def)
  qed
qed

lemma search_Lit:
  assumes "p \<noteq> []"
  shows "case search (Lit p) b False pre s of
           None \<Rightarrow> replace_all p q s = s
         | Some (pre', c, b', s') \<Rightarrow>
             (\<exists>mid. pre' = pre @ mid \<and> replace_all p q s = mid @ q @ replace_all p q s')
             \<and> c = [] \<and> length s' < length s \<and> length pre' + length s' \<noteq> length pre + length s"
proof (induction s arbitrary: pre b)
  case Nil
  show ?case using assms by (subst search.simps) (simp add: matches_Lit)
next
  case (Cons x xs)
  show ?case
  proof (cases "take (length p) (x # xs) = p")
    case True
    then have "length (take (length p) (x # xs)) = length p" by simp
    then have "length p \<le> Suc (length xs)" by simp
    moreover from assms have "0 < length p" by simp
    ultimately have lt: "Suc (length xs) - length p < Suc (length xs)"
      and ne: "Suc (length xs) - length p \<noteq> Suc (length xs)" by linarith+
    show ?thesis using assms True
      by (subst search.simps) (simp add: matches_Lit lt ne)
  next
    case False
    then have s: "search (Lit p) b False pre (x # xs) = search (Lit p) False False (pre @ [x]) xs"
      by (subst search.simps) (simp add: matches_Lit)
    from False have r: "replace_all p q (x # xs) = x # replace_all p q xs" by simp
    from Cons.IH [of "pre @ [x]" False] show ?thesis
      unfolding s r by (auto split: option.splits)
  qed
qed

lemma subx_Lit:
  assumes "p \<noteq> []"
  shows "subx (Lit p) [Txt q] 0 n b False s = replace_all p q s"
proof (induction "length s" arbitrary: s n b rule: less_induct)
  case less
  show ?case
  proof (cases "search (Lit p) b False [] s")
    case None
    with search_Lit [OF assms, where b = b and pre = "[]" and s = s and q = q] show ?thesis
      by (subst subx.simps) simp
  next
    case (Some m)
    obtain pre c b' s' where m: "m = (pre, c, b', s')" by (cases m) auto
    from search_Lit [OF assms, where b = b and pre = "[]" and s = s and q = q] Some m
    have r: "replace_all p q s = pre @ q @ replace_all p q s'" and c: "c = []"
      and l: "length s' < length s" and ne: "length pre + length s' \<noteq> length s"
      by auto
    from less [OF l] have "subx (Lit p) [Txt q] 0 (Suc n) (b \<and> length s' = length s) False s'
        = replace_all p q s'" .
    with Some m r c ne show ?thesis
      by (subst subx.simps) simp
  qed
qed

lemma re_sub_Lit: "p \<noteq> [] \<Longrightarrow> re_sub (Lit p) [Txt q] s 0 = replace_all p q s"
  by (simp add: re_sub_def subx_Lit)

lemma foldl_anon:
  "\<forall>pq \<in> set pairs. fst pq \<noteq> [] \<Longrightarrow>
   foldl (\<lambda>l p. re_sub (fst p) (snd p) l 0) l (map compile_anon pairs)
     = foldl (\<lambda>l pq. replace_all (fst pq) (snd pq) l) l pairs"
  by (induction pairs arbitrary: l) (simp_all add: compile_anon_def re_sub_Lit)

lemma star_Cls: "star (matches (Cls P)) (c, b, s) = runs P c b s"
proof (induction s arbitrary: b)
  case Nil
  show ?case by (subst star.simps) simp
next
  case (Cons x xs)
  show ?case by (subst star.simps) (simp add: Cons)
qed

lemma matches_Plus_Cls:
  "matches (Plus (Cls P)) (c, b, s) =
     (case s of [] \<Rightarrow> [] | x # xs \<Rightarrow> if P x then runs P c False xs else [])"
  by (simp add: Plus_def star_Cls split: list.splits)

lemma runs_Chr:
  assumes "\<not> P t"
  shows "concat (map (matches (Chr t)) (runs P c b s)) =
     (case after_rest P t s of None \<Rightarrow> [] | Some r \<Rightarrow> [(c, False, r)])"
  using assms by (induction s arbitrary: b) (auto simp: Chr_def after_rest_def)

lemma matches_Plus_Cls_Chr:
  assumes "\<not> P t"
  shows "matches (Seq (Plus (Cls P)) (Chr t)) (c, b, s) =
     (case after_run_of P t s of None \<Rightarrow> [] | Some r \<Rightarrow> [(c, False, r)])"
proof (cases s)
  case Nil
  then show ?thesis by (simp add: matches_Plus_Cls after_run_of_def)
next
  case (Cons x xs)
  show ?thesis
  proof (cases "P x")
    case True
    have 1: "matches (Seq (Plus (Cls P)) (Chr t)) (c, b, s)
        = concat (map (matches (Chr t)) (runs P c False xs))"
      using Cons True by (simp add: matches_Plus_Cls)
    have 2: "after_run_of P t s = after_rest P t xs"
      using Cons True by (simp add: after_run_of_def)
    show ?thesis unfolding 1 2 using assms by (rule runs_Chr)
  next
    case False
    with Cons show ?thesis
      by (simp add: matches_Plus_Cls after_run_of_def)
  qed
qed

lemma matches_G3:
  "matches G3 (c, b, s) =
     (case after_run_of (\<lambda>c. c \<noteq> CHR ''/'' \<and> c \<noteq> TAB) CHR ''/'' s of
        None \<Rightarrow> []
      | Some r \<Rightarrow> [((3, take (length s - length r) s) # c, False, r)])"
  unfolding G3_def
  by (simp add: matches_Plus_Cls_Chr split: option.splits del: matches.simps(5))

lemma star_G3:
  "\<exists>c' b'. hd (star (matches G3) (c, b, s)) = (c', b', strip_dirs s)
      \<and> map_of c' 1 = map_of c 1 \<and> star (matches G3) (c, b, s) \<noteq> []"
proof (induction s arbitrary: c b rule: strip_dirs.induct)
  case (1 s)
  show ?case
  proof (cases "after_run_of (\<lambda>c. c \<noteq> CHR ''/'' \<and> c \<noteq> TAB) CHR ''/'' s")
    case None
    then show ?thesis
      by (subst star.simps, subst (2) star.simps, subst strip_dirs.simps)
         (simp add: matches_G3)
  next
    case (Some r)
    from "1.IH" [OF Some, of "(3, take (length s - length r) s) # c" False]
    obtain c' b' where h: "hd (star (matches G3) ((3, take (length s - length r) s) # c, False, r))
        = (c', b', strip_dirs r)" "map_of c' 1 = map_of c 1"
       "star (matches G3) ((3, take (length s - length r) s) # c, False, r) \<noteq> []"
      by auto
    have lt: "length r < length s" using Some by (rule after_run_of_length)
    have st: "star (matches G3) (c, b, s) =
        star (matches G3) ((3, take (length s - length r) s) # c, False, r) @ [(c, b, s)]"
      by (subst star.simps) (simp add: matches_G3 Some lt)
    have sd: "strip_dirs s = strip_dirs r"
      by (subst strip_dirs.simps) (simp add: Some)
    from h show ?thesis unfolding st sd by simp
  qed
qed

lemma ctags_re_eq: "ctags_re = Seq G1 G2"
  by (simp add: ctags_re_def basename_filter_def G1_def G2_def G3_def)

lemma matches_G1:
  "matches G1 (c, b, s) =
     (if b then case after_run_of (\<lambda>c. c \<noteq> TAB) TAB s of
                  None \<Rightarrow> []
                | Some r \<Rightarrow> [((1, take (length s - length r) s) # c, False, r)]
      else [])"
proof -
  have "matches (Seq Bol (Seq (Plus (Cls (\<lambda>c. c \<noteq> TAB))) (Chr TAB))) (c, b, s) =
     (if b then matches (Seq (Plus (Cls (\<lambda>c. c \<noteq> TAB))) (Chr TAB)) (c, b, s) else [])"
    by simp
  then show ?thesis
    unfolding G1_def
    by (simp add: matches_Plus_Cls_Chr split: option.splits del: matches.simps(5))
qed

lemma matches_Opt_slash:
  "matches (Opt (Chr CHR ''/'')) (c, b, s) =
     (case s of [] \<Rightarrow> [] | x # xs \<Rightarrow> if x = CHR ''/'' then [(c, False, xs)] else []) @ [(c, b, s)]"
  by (simp add: Opt_def Chr_def split: list.splits)

lemma hd_matches_G2:
  "\<exists>c' b'. hd (matches G2 (c, False, s)) = (c', b', strip_dirs (opt_slash s))
      \<and> map_of c' 1 = map_of c 1 \<and> matches G2 (c, False, s) \<noteq> []"
proof -
  from star_G3 [of c False "opt_slash s"] obtain c' b' where
    h: "hd (star (matches G3) (c, False, opt_slash s)) = (c', b', strip_dirs (opt_slash s))"
       "map_of c' 1 = map_of c 1" "star (matches G3) (c, False, opt_slash s) \<noteq> []"
    by blast
  have "\<exists>rest. matches (Seq (Opt (Chr CHR ''/'')) (Star G3)) (c, False, s)
      = star (matches G3) (c, False, opt_slash s) @ rest"
    by (cases s) (auto simp: matches_Opt_slash simp del: matches.simps(6))
  then obtain rest where m: "matches (Seq (Opt (Chr CHR ''/'')) (Star G3)) (c, False, s)
      = star (matches G3) (c, False, opt_slash s) @ rest" by blast
  have "matches G2 (c, False, s)
      = map (\<lambda>st'. ((2, take (length s - length (snd (snd st'))) s) # fst st', snd st'))
          (star (matches G3) (c, False, opt_slash s) @ rest)"
    unfolding G2_def using m by (simp del: matches.simps(5))
  with h show ?thesis by (auto simp: hd_map hd_append)
qed

lemma matches_ctags_re:
  "matches ctags_re (c, b, s) = concat (map (matches G2) (matches G1 (c, b, s)))"
  by (simp add: ctags_re_eq)

lemma search_ctags_not_bol: "search ctags_re False False pre s = None"
proof (induction s arbitrary: pre)
  case Nil
  show ?case by (subst search.simps) (simp add: matches_ctags_re matches_G1)
next
  case (Cons x xs)
  show ?case by (subst search.simps) (simp add: matches_ctags_re matches_G1 Cons)
qed

lemma ctags_sub:
  "re_sub (fst (basename_filter Ctags)) (snd (basename_filter Ctags)) l (Suc 0) = ctags_basename l"
proof -
  have tmpl: "snd (basename_filter Ctags) = [Ref 1]" by (simp add: basename_filter_def)
  show ?thesis
  proof (cases "after_run_of (\<lambda>c. c \<noteq> TAB) TAB l")
    case None
    then have m: "matches ctags_re ([], True, l) = []"
      by (simp add: matches_ctags_re matches_G1)
    have "search ctags_re True False [] l = None"
      by (subst search.simps) (simp add: m search_ctags_not_bol split: list.splits)
    with None show ?thesis
      by (simp add: re_sub_once first_match_only_def ctags_re_def [symmetric] ctags_basename_def)
  next
    case (Some rest)
    let ?c1 = "[(1, take (length l - length rest) l)]"
    from hd_matches_G2 [of ?c1 rest] obtain c' b' where
      h: "hd (matches G2 (?c1, False, rest)) = (c', b', strip_dirs (opt_slash rest))"
         "map_of c' 1 = Some (take (length l - length rest) l)"
         "matches G2 (?c1, False, rest) \<noteq> []"
      by auto
    have m: "matches ctags_re ([], True, l) = matches G2 (?c1, False, rest)"
      using Some by (simp add: matches_ctags_re matches_G1)
    have "matches ctags_re ([], True, l)
        = hd (matches ctags_re ([], True, l)) # tl (matches ctags_re ([], True, l))"
      using h(3) m by simp
    then obtain ms where ms: "matches ctags_re ([], True, l) = (c', b', strip_dirs (opt_slash rest)) # ms"
      using h(1) m by metis
    have "search ctags_re True False [] l = Some ([], c', b', strip_dirs (opt_slash rest))"
      by (subst search.simps) (simp add: ms)
    with Some h(2) show ?thesis
      by (simp add: re_sub_once first_match_only_def ctags_re_def [symmetric] ctags_basename_def tmpl)
  qed
qed

lemma dslash_Cons: "dslash ys \<Longrightarrow> dslash (x # ys)"
  by (cases ys) auto

lemma dslash_append: "dslash ys \<Longrightarrow> dslash (xs @ ys)"
  by (induction xs) (auto simp: dslash_Cons)

lemma after_rest_split:
  "after_rest P t s = Some r \<Longrightarrow> s = takeWhile P s @ t # r \<and> dropWhile P s = t # r"
proof -
  assume "after_rest P t s = Some r"
  then have d: "dropWhile P s = t # r"
    by (auto simp: after_rest_def split: list.splits if_splits)
  have "s = takeWhile P s @ dropWhile P s" by simp
  with d show ?thesis by simp
qed

lemma after_run_of_split:
  "after_run_of P t s = Some r \<Longrightarrow>
     s = takeWhile P s @ t # r \<and> takeWhile P s \<noteq> [] \<and> dropWhile P s = t # r"
proof -
  assume a: "after_run_of P t s = Some r"
  then obtain x xs where s: "s = x # xs" "P x" "after_rest P t xs = Some r"
    by (cases s) (auto simp: after_run_of_def split: if_splits)
  from after_rest_split [OF s(3)] s(1,2) show ?thesis by simp
qed

lemma after_run_of_append:
  assumes "f \<noteq> []" "\<forall>c \<in> set f. P c" "\<not> P t"
  shows "after_run_of P t (f @ t # r) = Some r"
proof -
  from assms(1) obtain x xs where f: "f = x # xs" by (cases f) auto
  with assms have "dropWhile P (xs @ t # r) = t # r"
    by (simp add: dropWhile_append3)
  with f assms show ?thesis by (simp add: after_run_of_def after_rest_def)
qed

lemma strip_dirs_None:
  "after_run_of (\<lambda>c. c \<noteq> CHR ''/'' \<and> c \<noteq> TAB) CHR ''/'' (strip_dirs s) = None"
proof (induction s rule: strip_dirs.induct)
  case (1 s)
  show ?case
  proof (cases "after_run_of (\<lambda>c. c \<noteq> CHR ''/'' \<and> c \<noteq> TAB) CHR ''/'' s")
    case None
    then show ?thesis by (subst strip_dirs.simps) simp
  next
    case (Some r)
    with "1.IH" [OF Some] show ?thesis by (subst strip_dirs.simps) simp
  qed
qed

lemma strip_dirs_idem: "strip_dirs (strip_dirs s) = strip_dirs s"
  by (subst strip_dirs.simps) (simp add: strip_dirs_None)

lemma strip_dirs_slash:
  "strip_dirs s = CHR ''/'' # z \<Longrightarrow>
     (\<exists>z'. s = CHR ''/'' # z') \<or> dslash (takeWhile (\<lambda>c. c \<noteq> TAB) s)"
proof (induction s rule: strip_dirs.induct)
  case (1 s)
  show ?case
  proof (cases "after_run_of (\<lambda>c. c \<noteq> CHR ''/'' \<and> c \<noteq> TAB) CHR ''/'' s")
    case None
    with "1.prems" show ?thesis by (subst (asm) strip_dirs.simps) simp
  next
    case (Some r)
    let ?run = "takeWhile (\<lambda>c. c \<noteq> CHR ''/'' \<and> c \<noteq> TAB) s"
    from after_run_of_split [OF Some] have s: "s = ?run @ CHR ''/'' # r" by simp
    have nt: "\<forall>c \<in> set ?run. c \<noteq> TAB" by (auto dest: set_takeWhileD)
    have "takeWhile (\<lambda>c. c \<noteq> TAB) (?run @ CHR ''/'' # r)
        = ?run @ takeWhile (\<lambda>c. c \<noteq> TAB) (CHR ''/'' # r)"
      using nt by (intro takeWhile_append2) simp
    also have "\<dots> = ?run @ CHR ''/'' # takeWhile (\<lambda>c. c \<noteq> TAB) r"
      by (simp add: TAB_def)
    finally have tw: "takeWhile (\<lambda>c. c \<noteq> TAB) s = ?run @ CHR ''/'' # takeWhile (\<lambda>c. c \<noteq> TAB) r"
      using s by simp
    from "1.prems" Some have "strip_dirs r = CHR ''/'' # z"
      by (subst (asm) strip_dirs.simps) simp
    from "1.IH" [OF Some this]
    have "dslash (CHR ''/'' # takeWhile (\<lambda>c. c \<noteq> TAB) r)"
      by (auto simp: TAB_def dslash_Cons)
    then show ?thesis unfolding tw by (simp add: dslash_append)
  qed
qed

lemma opt_slash_strip_fix:
  assumes "\<not> dslash (takeWhile (\<lambda>c. c \<noteq> TAB) rest)"
  shows "strip_dirs (opt_slash (strip_dirs (opt_slash rest))) = strip_dirs (opt_slash rest)"
proof -
  let ?X = "strip_dirs (opt_slash rest)"
  have "\<not> (\<exists>z. ?X = CHR ''/'' # z)"
  proof
    assume "\<exists>z. ?X = CHR ''/'' # z"
    then obtain z where "?X = CHR ''/'' # z" by blast
    from strip_dirs_slash [OF this]
    have "dslash (takeWhile (\<lambda>c. c \<noteq> TAB) rest)"
      by (cases rest) (auto simp: TAB_def dslash_Cons split: if_splits)
    with assms show False by simp
  qed
  then have "opt_slash ?X = ?X" by (cases ?X) auto
  then show ?thesis by (simp add: strip_dirs_idem)
qed

lemma ctags_basename_idem:
  assumes "\<not> dslash (file_field l)"
  shows "ctags_basename (ctags_basename l) = ctags_basename l"
proof (cases "after_run_of (\<lambda>c. c \<noteq> TAB) TAB l")
  case None
  then show ?thesis by (simp add: ctags_basename_def)
next
  case (Some rest)
  let ?f1 = "takeWhile (\<lambda>c. c \<noteq> TAB) l"
  from after_run_of_split [OF Some] have l: "l = ?f1 @ TAB # rest" and ne: "?f1 \<noteq> []"
    and d: "dropWhile (\<lambda>c. c \<noteq> TAB) l = TAB # rest" by simp_all
  have len: "length l - length rest = Suc (length ?f1)"
    by (subst l) simp
  have tk: "take (length l - length rest) l = ?f1 @ [TAB]"
    unfolding len by (subst (2) l) simp
  have ff: "file_field l = takeWhile (\<lambda>c. c \<noteq> TAB) rest"
    by (simp add: file_field_def d)
  have all: "\<forall>c \<in> set ?f1. c \<noteq> TAB" by (auto dest: set_takeWhileD)
  have 1: "ctags_basename l = ?f1 @ TAB # strip_dirs (opt_slash rest)"
    using Some tk by (simp add: ctags_basename_def)
  have 2: "after_run_of (\<lambda>c. c \<noteq> TAB) TAB (?f1 @ TAB # strip_dirs (opt_slash rest))
      = Some (strip_dirs (opt_slash rest))"
    using ne all by (intro after_run_of_append) simp_all
  have 3: "ctags_basename (?f1 @ TAB # strip_dirs (opt_slash rest))
      = ?f1 @ TAB # strip_dirs (opt_slash (strip_dirs (opt_slash rest)))"
    by (simp add: ctags_basename_def 2)
  from assms ff have "\<not> dslash (takeWhile (\<lambda>c. c \<noteq> TAB) rest)" by simp
  from opt_slash_strip_fix [OF this] show ?thesis unfolding 1 3 by simp
qed

lemma etags_re_eq: "etags_re = Seq (Star Dot) (Seq (Chr CHR ''/'') ET)"
  by (simp add: etags_re_def basename_filter_def ET_def)

lemma in_runs:
  "st \<in> set (runs P c b s) \<longleftrightarrow>
     (\<exists>m s'. s = m @ s' \<and> (\<forall>x \<in> set m. P x) \<and> st = (c, b \<and> m = [], s'))"
proof (induction s arbitrary: b)
  case Nil
  then show ?case by auto
next
  case (Cons x xs)
  show ?case
  proof
    assume "st \<in> set (runs P c b (x # xs))"
    then consider "P x" "st \<in> set (runs P c False xs)" | "st = (c, b, x # xs)"
      by (auto split: if_splits)
    then show "\<exists>m s'. x # xs = m @ s' \<and> (\<forall>x \<in> set m. P x) \<and> st = (c, b \<and> m = [], s')"
    proof cases
      case 1
      with Cons [of False] obtain m s' where "xs = m @ s'" "\<forall>x \<in> set m. P x" "st = (c, False, s')"
        by auto
      with 1 show ?thesis by (intro exI [of _ "x # m"] exI [of _ s']) simp
    next
      case 2
      then show ?thesis by (intro exI [of _ "[]"] exI [of _ "x # xs"]) simp
    qed
  next
    assume "\<exists>m s'. x # xs = m @ s' \<and> (\<forall>x \<in> set m. P x) \<and> st = (c, b \<and> m = [], s')"
    then obtain m s' where h: "x # xs = m @ s'" "\<forall>x \<in> set m. P x" "st = (c, b \<and> m = [], s')"
      by blast
    show "st \<in> set (runs P c b (x # xs))"
    proof (cases m)
      case Nil
      with h have "s' = x # xs" "st = (c, b, x # xs)" by auto
      then show ?thesis by simp
    next
      case (Cons y ys)
      with h have "x = y" "xs = ys @ s'" "P x" "\<forall>x \<in> set ys. P x" "st = (c, False, s')" by auto
      with Cons.IH [of False] show ?thesis by auto
    qed
  qed
qed

lemma in_Plus_Cls:
  "st \<in> set (matches (Plus (Cls P)) (c, b, s)) \<longleftrightarrow>
     (\<exists>m s'. s = m @ s' \<and> m \<noteq> [] \<and> (\<forall>x \<in> set m. P x) \<and> st = (c, False, s'))"
proof
  assume "st \<in> set (matches (Plus (Cls P)) (c, b, s))"
  then obtain x xs where s: "s = x # xs" "P x" "st \<in> set (runs P c False xs)"
    by (auto simp: matches_Plus_Cls split: list.splits if_splits)
  then obtain m s' where "xs = m @ s'" "\<forall>x \<in> set m. P x" "st = (c, False, s')"
    by (auto simp: in_runs)
  with s show "\<exists>m s'. s = m @ s' \<and> m \<noteq> [] \<and> (\<forall>x \<in> set m. P x) \<and> st = (c, False, s')"
    by (intro exI [of _ "x # m"] exI [of _ s']) simp
next
  assume "\<exists>m s'. s = m @ s' \<and> m \<noteq> [] \<and> (\<forall>x \<in> set m. P x) \<and> st = (c, False, s')"
  then obtain m s' where h: "s = m @ s'" "m \<noteq> []" "\<forall>x \<in> set m. P x" "st = (c, False, s')"
    by blast
  then obtain y ys where m: "m = y # ys" by (cases m) auto
  with h have "st \<in> set (runs P c False (ys @ s'))"
    by (subst in_runs) auto
  with h m show "st \<in> set (matches (Plus (Cls P)) (c, b, s))"
    by (simp add: matches_Plus_Cls)
qed

lemma in_Seq:
  "st \<in> set (matches (Seq r1 r2) st0) \<longleftrightarrow>
     (\<exists>st1 \<in> set (matches r1 st0). st \<in> set (matches r2 st1))"
  by auto

lemma in_Chr:
  "st \<in> set (matches (Chr t) (c, b, s)) \<longleftrightarrow> (\<exists>s'. s = t # s' \<and> st = (c, False, s'))"
  by (cases s) (auto simp: Chr_def)

lemma in_Grp:
  "st \<in> set (matches (Grp n r) (c, b, s)) \<longleftrightarrow>
     (\<exists>c' b' s'. (c', b', s') \<in> set (matches r (c, b, s))
        \<and> st = ((n, take (length s - length s') s) # c', b', s'))"
  by (auto simp: image_iff) force

lemma in_Grp_Plus_Cls:
  "st \<in> set (matches (Grp n (Plus (Cls P))) (c, b, s)) \<longleftrightarrow>
     (\<exists>m s'. s = m @ s' \<and> m \<noteq> [] \<and> (\<forall>x \<in> set m. P x) \<and> st = ((n, m) # c, False, s'))"
proof
  assume "st \<in> set (matches (Grp n (Plus (Cls P))) (c, b, s))"
  then obtain c' b' s' where h: "(c', b', s') \<in> set (matches (Plus (Cls P)) (c, b, s))"
      "st = ((n, take (length s - length s') s) # c', b', s')"
    unfolding in_Grp by blast
  from h(1) obtain m where m: "s = m @ s'" "m \<noteq> []" "\<forall>x \<in> set m. P x" "c' = c" "b' = False"
    unfolding in_Plus_Cls by auto
  with h(2) have "st = ((n, m) # c, False, s')" by simp
  with m show "\<exists>m s'. s = m @ s' \<and> m \<noteq> [] \<and> (\<forall>x \<in> set m. P x) \<and> st = ((n, m) # c, False, s')"
    by blast
next
  assume "\<exists>m s'. s = m @ s' \<and> m \<noteq> [] \<and> (\<forall>x \<in> set m. P x) \<and> st = ((n, m) # c, False, s')"
  then obtain m s' where m: "s = m @ s'" "m \<noteq> []" "\<forall>x \<in> set m. P x"
      "st = ((n, m) # c, False, s')" by blast
  then have "(c, False, s') \<in> set (matches (Plus (Cls P)) (c, b, s))"
    unfolding in_Plus_Cls by blast
  moreover have "st = ((n, take (length s - length s') s) # c, False, s')"
    using m by simp
  ultimately show "st \<in> set (matches (Grp n (Plus (Cls P))) (c, b, s))"
    unfolding in_Grp by blast
qed

lemma in_Plus_Cls_Eol:
  "st \<in> set (matches (Seq (Plus (Cls P)) Eol) (c, b, s)) \<longleftrightarrow>
     (\<exists>m e. s = m @ e \<and> m \<noteq> [] \<and> (\<forall>x \<in> set m. P x) \<and> (e = [] \<or> e = [CHR 0x0A])
        \<and> st = (c, False, e))"
proof
  assume "st \<in> set (matches (Seq (Plus (Cls P)) Eol) (c, b, s))"
  then obtain st1 where h: "st1 \<in> set (matches (Plus (Cls P)) (c, b, s))"
      "st \<in> set (matches Eol st1)"
    unfolding in_Seq by blast
  from h(1) obtain m e where m: "s = m @ e" "m \<noteq> []" "\<forall>x \<in> set m. P x" "st1 = (c, False, e)"
    unfolding in_Plus_Cls by blast
  with h(2) have "(e = [] \<or> e = [CHR 0x0A]) \<and> st = (c, False, e)"
    by (auto split: if_splits)
  with m show "\<exists>m e. s = m @ e \<and> m \<noteq> [] \<and> (\<forall>x \<in> set m. P x) \<and> (e = [] \<or> e = [CHR 0x0A])
        \<and> st = (c, False, e)" by blast
next
  assume "\<exists>m e. s = m @ e \<and> m \<noteq> [] \<and> (\<forall>x \<in> set m. P x) \<and> (e = [] \<or> e = [CHR 0x0A])
        \<and> st = (c, False, e)"
  then obtain m e where m: "s = m @ e" "m \<noteq> []" "\<forall>x \<in> set m. P x" "e = [] \<or> e = [CHR 0x0A]"
      "st = (c, False, e)" by blast
  then have "(c, False, e) \<in> set (matches (Plus (Cls P)) (c, b, s))"
    unfolding in_Plus_Cls by blast
  moreover have "st \<in> set (matches Eol (c, False, e))" using m by auto
  ultimately show "st \<in> set (matches (Seq (Plus (Cls P)) Eol) (c, b, s))"
    unfolding in_Seq by blast
qed

lemma in_Grp_Plus_Cls_Eol:
  "st \<in> set (matches (Grp n (Seq (Plus (Cls P)) Eol)) (c, b, s)) \<longleftrightarrow>
     (\<exists>m e. s = m @ e \<and> m \<noteq> [] \<and> (\<forall>x \<in> set m. P x) \<and> (e = [] \<or> e = [CHR 0x0A])
        \<and> st = ((n, m) # c, False, e))"
proof
  assume "st \<in> set (matches (Grp n (Seq (Plus (Cls P)) Eol)) (c, b, s))"
  then obtain c' b' s' where h: "(c', b', s') \<in> set (matches (Seq (Plus (Cls P)) Eol) (c, b, s))"
      "st = ((n, take (length s - length s') s) # c', b', s')"
    unfolding in_Grp by blast
  from h(1) obtain m where m: "s = m @ s'" "m \<noteq> []" "\<forall>x \<in> set m. P x"
      "s' = [] \<or> s' = [CHR 0x0A]" "c' = c" "b' = False"
    unfolding in_Plus_Cls_Eol by auto
  with h(2) have "st = ((n, m) # c, False, s')" by auto
  with m show "\<exists>m e. s = m @ e \<and> m \<noteq> [] \<and> (\<forall>x \<in> set m. P x) \<and> (e = [] \<or> e = [CHR 0x0A])
        \<and> st = ((n, m) # c, False, e)" by blast
next
  assume "\<exists>m e. s = m @ e \<and> m \<noteq> [] \<and> (\<forall>x \<in> set m. P x) \<and> (e = [] \<or> e = [CHR 0x0A])
        \<and> st = ((n, m) # c, False, e)"
  then obtain m e where m: "s = m @ e" "m \<noteq> []" "\<forall>x \<in> set m. P x" "e = [] \<or> e = [CHR 0x0A]"
      "st = ((n, m) # c, False, e)" by blast
  then have "(c, False, e) \<in> set (matches (Seq (Plus (Cls P)) Eol) (c, b, s))"
    unfolding in_Plus_Cls_Eol by blast
  moreover have "st = ((n, take (length s - length e) s) # c, False, e)"
    using m by auto
  ultimately show "st \<in> set (matches (Grp n (Seq (Plus (Cls P)) Eol)) (c, b, s))"
    unfolding in_Grp by blast
qed

lemma in_ET:
  "st \<in> set (matches ET (c, b, t)) \<longleftrightarrow>
     (\<exists>g1 g2 e. t = g1 @ CHR '','' # g2 @ e \<and> g1 \<noteq> [] \<and> (\<forall>x \<in> set g1. \<not> isspace x)
        \<and> g2 \<noteq> [] \<and> (\<forall>x \<in> set g2. x \<in> set ''0123456789'') \<and> (e = [] \<or> e = [CHR 0x0A])
        \<and> st = ((2, g2) # (1, g1) # c, False, e))"
proof
  assume "st \<in> set (matches ET (c, b, t))"
  then obtain st1 st2 where h:
      "st1 \<in> set (matches (Grp 1 (Plus (Cls (\<lambda>c. \<not> isspace c)))) (c, b, t))"
      "st2 \<in> set (matches (Chr CHR '','') st1)"
      "st \<in> set (matches (Grp 2 (Seq (Plus (Cls (\<lambda>c. c \<in> set ''0123456789''))) Eol)) st2)"
    unfolding ET_def in_Seq by blast
  from h(1) obtain g1 s1 where 1: "t = g1 @ s1" "g1 \<noteq> []" "\<forall>x \<in> set g1. \<not> isspace x"
      "st1 = ((1, g1) # c, False, s1)"
    unfolding in_Grp_Plus_Cls by blast
  from h(2) have "st2 \<in> set (matches (Chr CHR '','') ((1, g1) # c, False, s1))"
    by (simp only: 1(4))
  then obtain s2 where 2: "s1 = CHR '','' # s2" "st2 = ((1, g1) # c, False, s2)"
    unfolding in_Chr by blast
  from h(3) have "st \<in> set (matches (Grp 2 (Seq (Plus (Cls (\<lambda>c. c \<in> set ''0123456789''))) Eol))
      ((1, g1) # c, False, s2))"
    by (simp only: 2(2))
  then obtain g2 e where 3: "s2 = g2 @ e" "g2 \<noteq> []"
      "\<forall>x \<in> set g2. x \<in> set ''0123456789''" "e = [] \<or> e = [CHR 0x0A]"
      "st = ((2, g2) # (1, g1) # c, False, e)"
    unfolding in_Grp_Plus_Cls_Eol by blast
  from 1 2 3 show "\<exists>g1 g2 e. t = g1 @ CHR '','' # g2 @ e \<and> g1 \<noteq> [] \<and> (\<forall>x \<in> set g1. \<not> isspace x)
        \<and> g2 \<noteq> [] \<and> (\<forall>x \<in> set g2. x \<in> set ''0123456789'') \<and> (e = [] \<or> e = [CHR 0x0A])
        \<and> st = ((2, g2) # (1, g1) # c, False, e)"
    by blast
next
  assume "\<exists>g1 g2 e. t = g1 @ CHR '','' # g2 @ e \<and> g1 \<noteq> [] \<and> (\<forall>x \<in> set g1. \<not> isspace x)
        \<and> g2 \<noteq> [] \<and> (\<forall>x \<in> set g2. x \<in> set ''0123456789'') \<and> (e = [] \<or> e = [CHR 0x0A])
        \<and> st = ((2, g2) # (1, g1) # c, False, e)"
  then obtain g1 g2 e where h: "t = g1 @ CHR '','' # g2 @ e" "g1 \<noteq> []"
      "\<forall>x \<in> set g1. \<not> isspace x" "g2 \<noteq> []" "\<forall>x \<in> set g2. x \<in> set ''0123456789''"
      "e = [] \<or> e = [CHR 0x0A]" "st = ((2, g2) # (1, g1) # c, False, e)" by blast
  have 1: "((1, g1) # c, False, CHR '','' # g2 @ e)
      \<in> set (matches (Grp 1 (Plus (Cls (\<lambda>c. \<not> isspace c)))) (c, b, t))"
    unfolding in_Grp_Plus_Cls using h by blast
  have 2: "((1, g1) # c, False, g2 @ e)
      \<in> set (matches (Chr CHR '','') ((1, g1) # c, False, CHR '','' # g2 @ e))"
    unfolding in_Chr by blast
  have 3: "st \<in> set (matches (Grp 2 (Seq (Plus (Cls (\<lambda>c. c \<in> set ''0123456789''))) Eol))
      ((1, g1) # c, False, g2 @ e))"
    unfolding in_Grp_Plus_Cls_Eol using h by blast
  from 1 2 3 show "st \<in> set (matches ET (c, b, t))"
    unfolding ET_def in_Seq by blast
qed

lemma etags_tmpl_eq: "etags_tmpl = [Ref 1, Txt '','', Ref 2]"
  by (simp add: etags_tmpl_def basename_filter_def)

lemma ET_restores:
  assumes "(c', b', e) \<in> set (matches ET (c, b, t))"
  shows "expand etags_tmpl c' @ e = t"
proof -
  from assms obtain g1 g2 where "t = g1 @ CHR '','' # g2 @ e" "c' = (2, g2) # (1, g1) # c"
    unfolding in_ET by blast
  then show ?thesis by (simp add: etags_tmpl_eq)
qed

lemma ET_nonempty:
  "(matches ET (c, b, t) \<noteq> []) = etags_tail_ok t"
proof -
  have "(set (matches ET (c, b, t)) \<noteq> {}) = (set (matches ET ([], False, t)) \<noteq> {})"
    unfolding ex_in_conv [symmetric] in_ET by blast
  then show ?thesis by (simp add: etags_tail_ok_def)
qed

lemma etags_tail_ok_line:
  assumes "etags_tail_ok t"
  shows "NL \<notin> set (butlast t) \<and> t \<noteq> []"
proof -
  from assms have "set (matches ET ([], False, t)) \<noteq> {}" by (simp add: etags_tail_ok_def)
  then obtain st where "st \<in> set (matches ET ([], False, t))"
    by (cases "matches ET ([], False, t)") auto
  then obtain g1 g2 e where h: "t = g1 @ CHR '','' # g2 @ e" "g1 \<noteq> []"
      "\<forall>x \<in> set g1. \<not> isspace x" "g2 \<noteq> []" "\<forall>x \<in> set g2. x \<in> set ''0123456789''"
      "e = [] \<or> e = [CHR 0x0A]"
    unfolding in_ET by blast
  have nl: "isspace NL" by (simp add: isspace_def NL_def)
  have 1: "NL \<notin> set g1" using h(3) nl by blast
  have "NL \<notin> set ''0123456789''" by (simp add: NL_def)
  with h(5) have 2: "NL \<notin> set g2" by blast
  let ?u = "g1 @ CHR '','' # g2"
  have u: "NL \<notin> set ?u" using 1 2 by (simp add: NL_def)
  have "set (butlast t) \<subseteq> set ?u"
  proof (cases "e = []")
    case True
    then have "t = ?u" using h(1) by simp
    then show ?thesis by (auto dest: in_set_butlastD)
  next
    case False
    with h(6) have "t = ?u @ [CHR 0x0A]" using h(1) by simp
    then have "butlast t = ?u" by (simp only: butlast_snoc)
    then show ?thesis by (simp only: subset_refl)
  qed
  with u have "NL \<notin> set (butlast t)" by blast
  moreover have "t \<noteq> []" using h(1) by simp
  ultimately show ?thesis by simp
qed

lemma matches_Star_Cls_Seq:
  "matches (Seq (Star (Cls P)) r) (c, b, s) = concat (map (matches r) (runs P c b s))"
  by (simp add: star_Cls)

lemma matches_Star_Cls_Seq_Cons:
  "matches (Seq (Star (Cls P)) r) (c, b, x # xs) =
     (if P x then matches (Seq (Star (Cls P)) r) (c, False, xs) else [])
     @ matches r (c, b, x # xs)"
  by (simp only: matches_Star_Cls_Seq runs.simps map_append concat_append if_distrib [of "map _"] if_distrib [of concat])
     simp

lemma matches_Chr_Seq_Cons:
  "matches (Seq (Chr t) r) (c, b, x # xs) = (if x = t then matches r (c, False, xs) else [])"
  by (simp add: Chr_def)

lemma matches_etags_Nil: "matches etags_re (c, b, []) = []"
  by (simp add: etags_re_eq star_Cls Dot_def Chr_def)

lemma matches_etags_Cons:
  "matches etags_re (c, b, x # xs) =
     (if x \<noteq> NL then matches etags_re (c, False, xs) else [])
     @ (if x = CHR ''/'' then matches ET (c, False, xs) else [])"
proof -
  have "matches etags_re (c, b, x # xs) =
     (if x \<noteq> CHR 0x0A then matches (Seq (Star (Cls (\<lambda>c. c \<noteq> CHR 0x0A))) (Seq (Chr CHR ''/'') ET)) (c, False, xs) else [])
     @ matches (Seq (Chr CHR ''/'') ET) (c, b, x # xs)"
    unfolding etags_re_eq Dot_def by (rule matches_Star_Cls_Seq_Cons)
  then show ?thesis
    by (simp only: matches_Chr_Seq_Cons etags_re_eq Dot_def NL_def)
qed

lemma etags_hd:
  "(matches etags_re (c, b, s) = []) = (etags_tail s = None)
   \<and> (\<forall>t. etags_tail s = Some t \<longrightarrow>
         (\<exists>c' e ms. matches etags_re (c, b, s) = (c', False, e) # ms
                     \<and> expand etags_tmpl c' @ e = t))"
proof (induction s arbitrary: b)
  case Nil
  show ?case by (simp add: matches_etags_Nil)
next
  case (Cons x xs)
  let ?A = "if x \<noteq> NL then matches etags_re (c, False, xs) else []"
  let ?B = "if x = CHR ''/'' then matches ET (c, False, xs) else []"
  have m: "matches etags_re (c, b, x # xs) = ?A @ ?B" by (rule matches_etags_Cons)
  show ?case
  proof (cases "x \<noteq> NL \<and> etags_tail xs \<noteq> None")
    case True
    then obtain t where t: "etags_tail xs = Some t" by auto
    with Cons [of False] obtain c' e ms where
      h: "matches etags_re (c, False, xs) = (c', False, e) # ms" "expand etags_tmpl c' @ e = t"
      by blast
    have "matches etags_re (c, b, x # xs) = (c', False, e) # (ms @ ?B)"
      unfolding m using True h(1) by simp
    with h(2) t True show ?thesis by auto
  next
    case False
    then have A: "?A = []" using Cons [of False] by auto
    have tl: "etags_tail (x # xs) = (if x = CHR ''/'' \<and> etags_tail_ok xs then Some xs else None)"
      using False by auto
    show ?thesis
    proof (cases "x = CHR ''/'' \<and> etags_tail_ok xs")
      case True
      then have ne: "matches ET (c, False, xs) \<noteq> []" by (simp add: ET_nonempty)
      then obtain st ms where st: "matches ET (c, False, xs) = st # ms"
        by (cases "matches ET (c, False, xs)") auto
      obtain c' b' e where st': "st = (c', b', e)" by (cases st) auto
      have mem: "(c', b', e) \<in> set (matches ET (c, False, xs))" using st st' by simp
      then have "b' = False" unfolding in_ET by blast
      moreover from mem have "expand etags_tmpl c' @ e = xs" by (rule ET_restores)
      ultimately show ?thesis unfolding m A tl using True st st' by simp
    next
      case False
      then have "?B = []" using ET_nonempty [of c False xs] by auto
      with False show ?thesis unfolding m A tl by simp
    qed
  qed
qed

lemma search_etags:
  "(case search etags_re b False pre s of
      None \<Rightarrow> pre @ s
    | Some (p, c', b', e) \<Rightarrow> p @ expand etags_tmpl c' @ e) = pre @ etags_sub s"
proof (induction s arbitrary: pre b)
  case Nil
  show ?case by (subst search.simps) (simp add: matches_etags_Nil)
next
  case (Cons x xs)
  show ?case
  proof (cases "etags_tail (x # xs)")
    case None
    with etags_hd [of "[]" b "x # xs"] have "matches etags_re ([], b, x # xs) = []" by simp
    then have "search etags_re b False pre (x # xs) = search etags_re False False (pre @ [x]) xs"
      by (subst search.simps) simp
    with Cons [of "pre @ [x]" False] None show ?thesis
      by (auto split: option.splits)
  next
    case (Some t)
    with etags_hd [of "[]" b "x # xs"] obtain c' e ms where
      h: "matches etags_re ([], b, x # xs) = (c', False, e) # ms" "expand etags_tmpl c' @ e = t"
      by blast
    have "search etags_re b False pre (x # xs) = Some (pre, c', False, e)"
      by (subst search.simps) (simp add: h(1))
    with h(2) Some show ?thesis by simp
  qed
qed

lemma etags_sub_eq: "basename_sub Etags l = etags_sub l"
proof -
  have "basename_sub Etags l = first_match_only etags_re etags_tmpl l"
    by (simp add: basename_sub_def re_sub_once etags_re_def etags_tmpl_def)
  also have "\<dots> = etags_sub l"
    using search_etags [where b = True and pre = "[]" and s = l]
    by (simp add: first_match_only_def split: option.splits prod.splits)
  finally show ?thesis .
qed

lemma etags_tail_None_drop:
  "etags_tail s = None \<Longrightarrow> NL \<notin> set (butlast s) \<Longrightarrow> etags_tail (drop n s) = None"
proof (induction s arbitrary: n)
  case Nil
  then show ?case by simp
next
  case (Cons x xs)
  show ?case
  proof (cases n)
    case 0
    with Cons.prems show ?thesis by simp
  next
    case (Suc m)
    show ?thesis
    proof (cases "xs = []")
      case True
      with Suc show ?thesis by simp
    next
      case False
      with Cons.prems(2) have x: "x \<noteq> NL" and nl: "NL \<notin> set (butlast xs)" by auto
      from Cons.prems(1) x have "etags_tail xs = None"
        by (auto split: option.splits if_splits)
      from Cons.IH [OF this nl, of m] Suc show ?thesis by simp
    qed
  qed
qed

lemma etags_tail_Some:
  "etags_tail s = Some t \<Longrightarrow> etags_tail_ok t \<and> (\<forall>n. etags_tail (drop n t) = None)"
proof (induction s)
  case Nil
  then show ?case by simp
next
  case (Cons x xs)
  show ?case
  proof (cases "x \<noteq> NL \<and> etags_tail xs \<noteq> None")
    case True
    with Cons.prems have "etags_tail xs = Some t" by auto
    with Cons.IH show ?thesis by simp
  next
    case False
    with Cons.prems have h: "x = CHR ''/''" "etags_tail_ok xs" "t = xs"
      by (auto split: if_splits)
    then have "x \<noteq> NL" by (simp add: NL_def)
    with False have n: "etags_tail xs = None" by simp
    from etags_tail_ok_line [OF h(2)] have "NL \<notin> set (butlast xs)" by simp
    with n h show ?thesis by (simp add: etags_tail_None_drop)
  qed
qed

lemma etags_sub_fix:
  "(\<And>n. etags_tail (drop n s) = None) \<Longrightarrow> etags_sub s = s"
proof (induction s)
  case Nil
  show ?case by simp
next
  case (Cons x xs)
  from Cons.prems [of 0] have 0: "etags_tail (x # xs) = None" by simp
  have "etags_tail (drop n xs) = None" for n using Cons.prems [of "Suc n"] by simp
  then have "etags_sub xs = xs" by (rule Cons.IH)
  with 0 show ?case by simp
qed

lemma etags_sub_line:
  "etags_tail s = None \<Longrightarrow> etags_sub s = s \<or> NL \<in> set (butlast (etags_sub s))"
proof (induction s)
  case Nil
  show ?case by simp
next
  case (Cons x xs)
  then have sub: "etags_sub (x # xs) = x # etags_sub xs" by simp
  show ?case
  proof (cases "etags_tail xs")
    case None
    from Cons.IH [OF None] show ?thesis
    proof
      assume "etags_sub xs = xs"
      with sub show ?thesis by simp
    next
      assume a: "NL \<in> set (butlast (etags_sub xs))"
      then have "etags_sub xs \<noteq> []" by auto
      with a sub show ?thesis by simp
    qed
  next
    case (Some t)
    with Cons.prems have x: "x = NL" by (auto split: if_splits)
    from Some have "xs \<noteq> []" by auto
    then obtain y ys where xs: "xs = y # ys" by (cases xs) auto
    with Some have s: "etags_sub xs = t" by simp
    from etags_tail_Some [OF Some] etags_tail_ok_line have "t \<noteq> []" by blast
    with sub s x show ?thesis by simp
  qed
qed

lemma etags_tail_sub_None:
  "etags_tail s = None \<Longrightarrow> etags_tail (etags_sub s) = None"
proof (induction s)
  case Nil
  show ?case by simp
next
  case (Cons x xs)
  then have sub: "etags_sub (x # xs) = x # etags_sub xs" by simp
  show ?case
  proof (cases "x = NL")
    case True
    then show ?thesis unfolding sub by (simp add: NL_def)
  next
    case False
    with Cons.prems have n: "etags_tail xs = None" and
      k: "\<not> (x = CHR ''/'' \<and> etags_tail_ok xs)"
      by (auto split: option.splits if_splits)
    from Cons.IH [OF n] have 1: "etags_tail (etags_sub xs) = None" .
    have 2: "\<not> (x = CHR ''/'' \<and> etags_tail_ok (etags_sub xs))"
    proof
      assume a: "x = CHR ''/'' \<and> etags_tail_ok (etags_sub xs)"
      with etags_tail_ok_line have "NL \<notin> set (butlast (etags_sub xs))" by blast
      with etags_sub_line [OF n] have "etags_sub xs = xs" by blast
      with a k show False by simp
    qed
    have "NL \<noteq> CHR ''/''" by (simp add: NL_def)
    with 1 2 False show ?thesis unfolding sub by auto
  qed
qed

lemma etags_sub_idem: "etags_sub (etags_sub s) = etags_sub s"
proof (induction s)
  case Nil
  show ?case by simp
next
  case (Cons x xs)
  show ?case
  proof (cases "etags_tail (x # xs)")
    case None
    then have sub: "etags_sub (x # xs) = x # etags_sub xs" by simp
    from etags_tail_sub_None [OF None] have "etags_tail (x # etags_sub xs) = None"
      unfolding sub .
    then have "etags_sub (x # etags_sub xs) = x # etags_sub (etags_sub xs)" by simp
    with Cons.IH sub show ?thesis by simp
  next
    case (Some t)
    then have sub: "etags_sub (x # xs) = t" by simp
    from etags_tail_Some [OF Some] have "etags_sub t = t" by (intro etags_sub_fix) simp
    with sub show ?thesis by simp
  qed
qed

section \<open>Applying the base filter twice\<close>

text \<open>
  C8, as far as it holds. For the etags format the base filter applied twice to a text
  gives what it gives applied once, for every text. For the ctags format it does so for
  every line whose second field, the name of the input file, has no two slashes in a
  row.
\<close>

theorem C8_idempotent_etags_and_plain_ctags:
  "basename_sub Etags (basename_sub Etags l) = basename_sub Etags l
   \<and> (\<not> dslash (file_field l) \<longrightarrow>
        basename_sub Ctags (basename_sub Ctags l) = basename_sub Ctags l)"
proof -
  have c: "basename_sub Ctags l = ctags_basename l" for l
    by (simp add: basename_sub_def ctags_sub)
  show ?thesis
    by (simp add: etags_sub_eq etags_sub_idem c ctags_basename_idem)
qed

text \<open>
  The theorem at a line of tags without doubled slash.
\<close>

theorem C8_witness:
  "basename_sub Etags (basename_sub Etags (''main'' @ [TAB] @ ''Units/a.d/input.c'' @ [TAB] @ ''f''))
     = basename_sub Etags (''main'' @ [TAB] @ ''Units/a.d/input.c'' @ [TAB] @ ''f'')
   \<and> basename_sub Ctags (basename_sub Ctags (''main'' @ [TAB] @ ''Units/a.d/input.c'' @ [TAB] @ ''f''))
     = basename_sub Ctags (''main'' @ [TAB] @ ''Units/a.d/input.c'' @ [TAB] @ ''f'')"
proof -
  have h: "\<not> dslash (file_field (''main'' @ [TAB] @ ''Units/a.d/input.c'' @ [TAB] @ ''f''))"
    by code_simp
  from C8_idempotent_etags_and_plain_ctags
    [of "''main'' @ [TAB] @ ''Units/a.d/input.c'' @ [TAB] @ ''f''"] h
  show ?thesis by blast
qed

text \<open>
  C8 as stated fails for three of the four formats. A line of tags whose file name has a
  doubled slash loses one directory in the first application and the rest in the second;
  a line of cross references and a line of JSON on which the pattern matches at two
  places lose one path in each application.
\<close>

theorem C8_counterexample:
  \<open>basename_sub Ctags (''main'' @ [TAB] @ ''Units//a.d/input.c'' @ [TAB] @ ''f'')
     = ''main'' @ [TAB] @ ''/a.d/input.c'' @ [TAB] @ ''f''
   \<and> basename_sub Ctags (''main'' @ [TAB] @ ''/a.d/input.c'' @ [TAB] @ ''f'')
     = ''main'' @ [TAB] @ ''input.c'' @ [TAB] @ ''f''
   \<and> basename_sub Xref ''f function 1 dd/input.c x = 2 ab/cde''
     = ''f function 1 dd/input.c x = 2 cde''
   \<and> basename_sub Xref ''f function 1 dd/input.c x = 2 cde''
     = ''f function 1 input.c x = 2 cde''
   \<and> basename_sub Json ''"path": "a/b", "pattern": "path": "c/d"''
     = ''"path": "b", "pattern": "path": "c/d"''
   \<and> basename_sub Json ''"path": "b", "pattern": "path": "c/d"''
     = ''"path": "b", "pattern": "path": "d"''
   \<and> basename_sub Ctags (basename_sub Ctags (''main'' @ [TAB] @ ''Units//a.d/input.c'' @ [TAB] @ ''f''))
     \<noteq> basename_sub Ctags (''main'' @ [TAB] @ ''Units//a.d/input.c'' @ [TAB] @ ''f'')\<close>
  by code_simp

section \<open>One match for the base filter, all for the anonymizing pairs\<close>

text \<open>
  C10. On a line, \<^verbatim>\<open>run_filter\<close> rewrites the leftmost match of the base pattern and leaves
  the text after it as it is, also where the pattern matches again; then every
  anonymizing pair, in turn, replaces every occurrence of its first text by its second.
\<close>

theorem C10_first_match_then_every_occurrence:
  assumes "\<forall>pq \<in> set pairs. fst pq \<noteq> []"
  shows "run_filter_line (basename_filter output_type) (map compile_anon pairs) l
     = foldl (\<lambda>l pq. replace_all (fst pq) (snd pq) l)
         (first_match_only (fst (basename_filter output_type)) (snd (basename_filter output_type)) l)
         pairs"
  using assms by (simp add: run_filter_line_def re_sub_once foldl_anon)

text \<open>
  The theorem at a line of JSON output with two paths and two occurrences of a hash:
  the first path alone loses its directory, both hashes are replaced.
\<close>

theorem C10_witness:
  \<open>fst (''0a1b2c3d'', ''deadbeef'') \<noteq> []
   \<and> run_filter_line (basename_filter Json) (map compile_anon [(''0a1b2c3d'', ''deadbeef'')])
        ''"path": "a/b", "path": "c/d", "x0a1b2c3d", "y0a1b2c3d"''
      = ''"path": "b", "path": "c/d", "xdeadbeef", "ydeadbeef"''\<close>
proof -
  have h: "\<forall>pq \<in> set [(''0a1b2c3d'', ''deadbeef'')]. fst pq \<noteq> []" by simp
  have e: \<open>foldl (\<lambda>l pq. replace_all (fst pq) (snd pq) l)
         (first_match_only (fst (basename_filter Json)) (snd (basename_filter Json))
            ''"path": "a/b", "path": "c/d", "x0a1b2c3d", "y0a1b2c3d"'')
         [(''0a1b2c3d'', ''deadbeef'')]
       = ''"path": "b", "path": "c/d", "xdeadbeef", "ydeadbeef"''\<close>
    by code_simp
  from C10_first_match_then_every_occurrence [OF h, of Json
      \<open>''"path": "a/b", "path": "c/d", "x0a1b2c3d", "y0a1b2c3d"''\<close>] h e
  show ?thesis by simp
qed

end
